theory Spec2Isabelle
  imports Complex_Main "HOL-Library.Monad_Syntax" "HOL-Library.List_Lexorder" "HOL-Library.Char_ord"
begin

section \<open>Standalone denoiser of blender\_viewport.cpp: the embedding\<close>

text \<open>
  A C++ \<open>int\<close> is modelled as an \<open>int\<close> in the range of 32 bits. The tile code
  (\<open>map_neighboring_tiles\<close>, \<open>unmap_neighboring_tiles\<close>) multiplies image and tile
  sizes in \<open>int\<close>, so there the result of every \<open>int\<close> operation is wrapped by
  \<open>int32\<close>; pointers are 64 bits wide and pointer offsets are not wrapped. The other
  functions are modelled on \<open>int\<close> without wrap-around: what is proved of them is
  about the tile grid, the channel tables and single rows of a buffer.
  Floats are only copied by the tile code, so pixel buffers are
  lists over an arbitrary type \<open>'a\<close>; the box blur takes the float operations it uses
  as parameters. A read or write outside a buffer (undefined behaviour in C++) is the
  value \<open>None\<close>. The two mutexes of the task are not modelled: every function is one
  sequential call.
\<close>

subsection \<open>Buffers\<close>

definition array_get :: "'a list \<Rightarrow> int \<Rightarrow> 'a option" where
  "array_get xs i = (if 0 \<le> i \<and> i < int (length xs) then Some (xs ! nat i) else None)"

definition array_set :: "'a list \<Rightarrow> int \<Rightarrow> 'a \<Rightarrow> 'a list option" where
  "array_set xs i v = (if 0 \<le> i \<and> i < int (length xs) then Some (xs[nat i := v]) else None)"

text \<open>
  Modelled from the spec: \<open>clamp\<close> and \<open>divide_up\<close> of util\_math.h are not under
  src/. The spec uses \<open>clamp(v, 0, W)\<close> for clipping to the image and gives the grid as
  \<open>ceil(W/tw) \<times> ceil(H/th)\<close>.
\<close>

text \<open>
  The range of a C++ \<open>int\<close>, and the value that an \<open>int\<close> operation with the exact
  result \<open>a\<close> leaves in a 32-bit register (two's complement wrap-around).
\<close>

definition INT_MAX :: int where
  "INT_MAX = 2147483647"

definition INT_MIN :: int where
  "INT_MIN = - 2147483648"

definition int32 :: "int \<Rightarrow> int" where
  "int32 a = (a + 2147483648) mod 4294967296 - 2147483648"


definition divide_up :: "int \<Rightarrow> int \<Rightarrow> int" where
  "divide_up a b = (a + b - 1) div b"

text \<open>
  A \<open>device_vector\<close> has a host copy and a device copy. Modelled from the spec
  (device\_memory.h is not under src/): \<open>alloc\<close> gives a host buffer of the requested
  size, \<open>copy_to_device\<close> and \<open>copy_from_device\<close> copy the whole buffer.
\<close>

record 'a device_vector =
  host_data :: "'a list"
  device_data :: "'a list"



subsection \<open>Channel map\<close>

type_synonym ChannelMapping = "int \<times> string"

fun fill_mapping :: "ChannelMapping list \<Rightarrow> int \<Rightarrow> string \<Rightarrow> string \<Rightarrow> ChannelMapping list" where
  "fill_mapping m pos nm [] = m"
| "fill_mapping m pos nm (chan # chans) =
     fill_mapping (m @ [(pos, nm @ ''.'' @ [chan])]) (pos + 1) nm chans"

definition INPUT_NUM_CHANNELS :: int where "INPUT_NUM_CHANNELS = 15"
definition INPUT_DENOISING_DEPTH :: int where "INPUT_DENOISING_DEPTH = 0"
definition INPUT_DENOISING_NORMAL :: int where "INPUT_DENOISING_NORMAL = 1"
definition INPUT_DENOISING_SHADOWING :: int where "INPUT_DENOISING_SHADOWING = 4"
definition INPUT_DENOISING_ALBEDO :: int where "INPUT_DENOISING_ALBEDO = 5"
definition INPUT_NOISY_IMAGE :: int where "INPUT_NOISY_IMAGE = 8"
definition INPUT_DENOISING_VARIANCE :: int where "INPUT_DENOISING_VARIANCE = 11"
definition INPUT_DENOISING_INTENSITY :: int where "INPUT_DENOISING_INTENSITY = 14"
definition OUTPUT_NUM_CHANNELS :: int where "OUTPUT_NUM_CHANNELS = 3"

definition input_channels :: "ChannelMapping list" where
  "input_channels =
     fill_mapping
      (fill_mapping
        (fill_mapping
          (fill_mapping
            (fill_mapping
              (fill_mapping
                (fill_mapping [] INPUT_DENOISING_DEPTH ''Denoising Depth'' ''Z'')
                INPUT_DENOISING_NORMAL ''Denoising Normal'' ''XYZ'')
              INPUT_DENOISING_SHADOWING ''Denoising Shadowing'' ''X'')
            INPUT_DENOISING_ALBEDO ''Denoising Albedo'' ''RGB'')
          INPUT_NOISY_IMAGE ''Noisy Image'' ''RGB'')
        INPUT_DENOISING_VARIANCE ''Denoising Variance'' ''RGB'')
      INPUT_DENOISING_INTENSITY ''Denoising Intensity'' ''X''"

definition output_channels :: "ChannelMapping list" where
  "output_channels = fill_mapping [] 0 ''Combined'' ''RGB''"

subsection \<open>Layers, image, tiles and the task\<close>

record DenoiseImageLayer =
  name :: string
  channels :: "string list"
  layer_to_image_channel :: "int list"
  input_to_image_channel :: "int list"
  output_to_image_channel :: "int list"
  samples :: int

record 'a DenoiseImage =
  width :: int
  height :: int
  num_channels :: int
  image_samples :: int
  pixels :: "'a list"
  layers :: "DenoiseImageLayer list"

datatype tile_task_kind = PATH_TRACE | DENOISE

record RenderTile =
  tile_x :: int
  tile_y :: int
  tile_w :: int
  tile_h :: int
  start_sample :: int
  num_samples :: int
  tile_sample :: int
  tile_offset :: int
  tile_stride :: int
  tile_index :: int
  tile_task :: tile_task_kind
  tile_buffer :: nat

text \<open>
  The fields of \<open>DenoiseTask\<close> that the tile callbacks use. \<open>tile_size\<close> is
  \<open>denoiser->tile_size\<close>, \<open>input_pixels\<close> the device pointer of the input buffer,
  \<open>output_pixels\<close> the map from tile index to the tile's output buffer.
\<close>

record 'a DenoiseTask =
  task_image :: "'a DenoiseImage"
  tile_size :: "int \<times> int"
  current_layer :: int
  input_pixels :: nat
  tiles :: "RenderTile list"
  num_tiles :: int
  output_pixels :: "int \<Rightarrow> 'a device_vector option"

subsection \<open>create\_task: the tile grid\<close>

definition new_tile :: "'a DenoiseTask \<Rightarrow> int \<Rightarrow> int \<Rightarrow> int \<Rightarrow> RenderTile" where
  "new_tile T tiles_x ty tx =
     (let px = tx * fst (tile_size T); py = ty * snd (tile_size T) in
      \<lparr> tile_x = px, tile_y = py,
        tile_w = min (width (task_image T) - px) (fst (tile_size T)),
        tile_h = min (height (task_image T) - py) (snd (tile_size T)),
        start_sample = 0,
        num_samples = samples (layers (task_image T) ! nat (current_layer T)),
        tile_sample = 0, tile_offset = 0, tile_stride = width (task_image T),
        tile_index = ty * tiles_x + tx, tile_task = DENOISE,
        tile_buffer = input_pixels T \<rparr>)"

function create_tiles_x ::
  "'a DenoiseTask \<Rightarrow> int \<Rightarrow> int \<Rightarrow> int \<Rightarrow> RenderTile list \<Rightarrow> RenderTile list" where
  "create_tiles_x T tiles_x ty tx ts =
     (if tx < tiles_x then create_tiles_x T tiles_x ty (tx + 1) (ts @ [new_tile T tiles_x ty tx])
      else ts)"
  by pat_completeness auto
termination
  by (relation "measure (\<lambda>(T, tiles_x, ty, tx, ts). nat (tiles_x - tx))") auto
declare create_tiles_x.simps [simp del]

function create_tiles_y ::
  "'a DenoiseTask \<Rightarrow> int \<Rightarrow> int \<Rightarrow> int \<Rightarrow> RenderTile list \<Rightarrow> RenderTile list" where
  "create_tiles_y T tiles_x tiles_y ty ts =
     (if ty < tiles_y
      then create_tiles_y T tiles_x tiles_y (ty + 1) (create_tiles_x T tiles_x ty 0 ts)
      else ts)"
  by pat_completeness auto
termination
  by (relation "measure (\<lambda>(T, tiles_x, tiles_y, ty, ts). nat (tiles_y - ty))") auto
declare create_tiles_y.simps [simp del]

definition create_task :: "'a DenoiseTask \<Rightarrow> 'a DenoiseTask" where
  "create_task T =
     (let tiles_x = divide_up (width (task_image T)) (fst (tile_size T));
          tiles_y = divide_up (height (task_image T)) (snd (tile_size T));
          ts = create_tiles_y T tiles_x tiles_y 0 []
      in T\<lparr>tiles := ts, num_tiles := int (length ts), output_pixels := Map.empty\<rparr>)"


definition in_tile :: "RenderTile \<Rightarrow> int \<Rightarrow> int \<Rightarrow> bool" where
  "in_tile t px py \<longleftrightarrow>
     tile_x t \<le> px \<and> px < tile_x t + tile_w t \<and> tile_y t \<le> py \<and> py < tile_y t + tile_h t"

subsection \<open>map\_neighboring\_tiles\<close>







subsection \<open>unmap\_neighboring\_tiles\<close>





subsection \<open>load\_input\_pixels: the preprocessing of the device input buffer\<close>

text \<open>
  The float operations the preprocessing uses are parameters: \<open>fzero\<close> is
  \<open>0.0f\<close>, \<open>fadd\<close> the float addition of \<open>sum += v\<close> (the variable \<open>sum\<close> is \<open>sm\<close> below), \<open>fdiv s n\<close> the
  division \<open>s / n\<close> of a float by an \<open>int\<close>, and \<open>fclamp\<close> the clamp to
  \<open>[-1e8, 1e8]\<close>. What is proved holds for every choice of them.
\<close>

record 'a float_ops =
  fzero :: 'a
  fadd :: "'a \<Rightarrow> 'a \<Rightarrow> 'a"
  fdiv :: "'a \<Rightarrow> int \<Rightarrow> 'a"
  fclamp :: "'a \<Rightarrow> 'a"

text \<open>
  The horizontal pass. \<open>data\<close> is the offset of the pointer \<open>data\<close> into the input
  buffer \<open>buf\<close>; the innermost loop runs \<open>dx\<close> from \<open>max(x - r, 0)\<close> while
  \<open>dx < min(x + r + 1, w)\<close> and counts its iterations in \<open>n\<close>.
\<close>

function blur_sum_h ::
  "'a float_ops \<Rightarrow> 'a list \<Rightarrow> int \<Rightarrow> int \<Rightarrow> int \<Rightarrow> int \<Rightarrow> int \<Rightarrow> int \<Rightarrow> 'a \<Rightarrow> (int \<times> 'a) option" where
  "blur_sum_h ops buf data w y hi dx n sm =
     (if dx < hi
      then do {
        v \<leftarrow> array_get buf (data + INPUT_NUM_CHANNELS * (y * w + dx));
        blur_sum_h ops buf data w y hi (dx + 1) (n + 1) (fadd ops sm v)
      }
      else Some (n, sm))"
  by pat_completeness auto
termination
  by (relation "measure (\<lambda>(ops, buf, data, w, y, hi, dx, n, sm). nat (hi - dx))") auto
declare blur_sum_h.simps [simp del]

function blur_h_x ::
  "'a float_ops \<Rightarrow> 'a list \<Rightarrow> int \<Rightarrow> int \<Rightarrow> int \<Rightarrow> int \<Rightarrow> int \<Rightarrow> 'a list \<Rightarrow> 'a list option" where
  "blur_h_x ops buf data r w y x temp =
     (if x < w
      then do {
        (n, sm) \<leftarrow> blur_sum_h ops buf data w y (min (x + r + 1) w) (max (x - r) 0) 0 (fzero ops);
        temp' \<leftarrow> array_set temp (y * w + x) (fdiv ops sm n);
        blur_h_x ops buf data r w y (x + 1) temp'
      }
      else Some temp)"
  by pat_completeness auto
termination
  by (relation "measure (\<lambda>(ops, buf, data, r, w, y, x, temp). nat (w - x))") auto
declare blur_h_x.simps [simp del]

function blur_h_y ::
  "'a float_ops \<Rightarrow> 'a list \<Rightarrow> int \<Rightarrow> int \<Rightarrow> int \<Rightarrow> int \<Rightarrow> int \<Rightarrow> 'a list \<Rightarrow> 'a list option" where
  "blur_h_y ops buf data r w h y temp =
     (if y < h
      then do {
        temp' \<leftarrow> blur_h_x ops buf data r w y 0 temp;
        blur_h_y ops buf data r w h (y + 1) temp'
      }
      else Some temp)"
  by pat_completeness auto
termination
  by (relation "measure (\<lambda>(ops, buf, data, r, w, h, y, temp). nat (h - y))") auto
declare blur_h_y.simps [simp del]

text \<open>The vertical pass reads \<open>temp\<close> and writes the intensity channel of \<open>buf\<close>.\<close>

function blur_sum_v ::
  "'a float_ops \<Rightarrow> 'a list \<Rightarrow> int \<Rightarrow> int \<Rightarrow> int \<Rightarrow> int \<Rightarrow> int \<Rightarrow> 'a \<Rightarrow> (int \<times> 'a) option" where
  "blur_sum_v ops temp w x hi dy n sm =
     (if dy < hi
      then do {
        v \<leftarrow> array_get temp (dy * w + x);
        blur_sum_v ops temp w x hi (dy + 1) (n + 1) (fadd ops sm v)
      }
      else Some (n, sm))"
  by pat_completeness auto
termination
  by (relation "measure (\<lambda>(ops, temp, w, x, hi, dy, n, sm). nat (hi - dy))") auto
declare blur_sum_v.simps [simp del]

function blur_v_x ::
  "'a float_ops \<Rightarrow> 'a list \<Rightarrow> int \<Rightarrow> int \<Rightarrow> int \<Rightarrow> int \<Rightarrow> int \<Rightarrow> int \<Rightarrow> 'a list \<Rightarrow> 'a list option" where
  "blur_v_x ops temp data r w h y x buf =
     (if x < w
      then do {
        (n, sm) \<leftarrow> blur_sum_v ops temp w x (min (y + r + 1) h) (max (y - r) 0) 0 (fzero ops);
        buf' \<leftarrow> array_set buf (data + INPUT_NUM_CHANNELS * (y * w + x)) (fdiv ops sm n);
        blur_v_x ops temp data r w h y (x + 1) buf'
      }
      else Some buf)"
  by pat_completeness auto
termination
  by (relation "measure (\<lambda>(ops, temp, data, r, w, h, y, x, buf). nat (w - x))") auto
declare blur_v_x.simps [simp del]

function blur_v_y ::
  "'a float_ops \<Rightarrow> 'a list \<Rightarrow> int \<Rightarrow> int \<Rightarrow> int \<Rightarrow> int \<Rightarrow> int \<Rightarrow> 'a list \<Rightarrow> 'a list option" where
  "blur_v_y ops temp data r w h y buf =
     (if y < h
      then do {
        buf' \<leftarrow> blur_v_x ops temp data r w h y 0 buf;
        blur_v_y ops temp data r w h (y + 1) buf'
      }
      else Some buf)"
  by pat_completeness auto
termination
  by (relation "measure (\<lambda>(ops, temp, data, r, w, h, y, buf). nat (h - y))") auto
declare blur_v_y.simps [simp del]

text \<open>
  The box blur of one frame slab: \<open>buffer_data\<close> is the offset of the slab in the
  input buffer, \<open>radius\<close> is \<open>denoiser->params.radius\<close>, and \<open>fresh\<close> the content
  of the newly allocated \<open>temp\<close>.
\<close>

definition box_blur ::
  "'a float_ops \<Rightarrow> int \<Rightarrow> int \<Rightarrow> int \<Rightarrow> int \<Rightarrow> 'a \<Rightarrow> 'a list \<Rightarrow> 'a list option" where
  "box_blur ops radius w h buffer_data fresh buf =
     (let r = 5 * radius;
          data = buffer_data + 14;
          temp = replicate (nat (w * h)) fresh
      in do {
        temp' \<leftarrow> blur_h_y ops buf data r w h 0 temp;
        blur_v_y ops temp' data r w h 0 buf
      })"

function clamp_loop ::
  "'a float_ops \<Rightarrow> int \<Rightarrow> int \<Rightarrow> int \<Rightarrow> 'a list \<Rightarrow> 'a list option" where
  "clamp_loop ops buffer_data n i buf =
     (if i < n
      then do {
        v \<leftarrow> array_get buf (buffer_data + i);
        buf' \<leftarrow> array_set buf (buffer_data + i) (fclamp ops v);
        clamp_loop ops buffer_data n (i + 1) buf'
      }
      else Some buf)"
  by pat_completeness auto
termination
  by (relation "measure (\<lambda>(ops, buffer_data, n, i, buf). nat (n - i))") auto
declare clamp_loop.simps [simp del]

text \<open>
  The loop over the frame slabs (the center frame and one slab per neighbor frame):
  \<open>num_frames\<close> is \<open>image.in_neighbors.size() + 1\<close>.
\<close>

function preprocess ::
  "'a float_ops \<Rightarrow> bool \<Rightarrow> int \<Rightarrow> int \<Rightarrow> int \<Rightarrow> int \<Rightarrow> int \<Rightarrow> int \<Rightarrow> 'a \<Rightarrow> 'a list \<Rightarrow> 'a list option" where
  "preprocess ops clamp_input radius w h num_frames neighbor buffer_data fresh buf =
     (if neighbor < num_frames
      then do {
        buf1 \<leftarrow> (if clamp_input
                 then clamp_loop ops buffer_data (w * h * INPUT_NUM_CHANNELS) 0 buf
                 else Some buf);
        buf2 \<leftarrow> box_blur ops radius w h buffer_data fresh buf1;
        preprocess ops clamp_input radius w h num_frames (neighbor + 1)
          (buffer_data + w * h * INPUT_NUM_CHANNELS) fresh buf2
      }
      else Some buf)"
  by pat_completeness auto
termination
  by (relation "measure (\<lambda>(ops, clamp_input, radius, w, h, num_frames, neighbor, buffer_data, fresh, buf).
        nat (num_frames - neighbor))") auto
declare preprocess.simps [simp del]

text \<open>
  The mean of \<open>f\<close> over the half-open window \<open>[lo, hi)\<close>: the samples are added
  from left to right, starting from \<open>fzero\<close>, and the sum is divided by the number of
  samples of the window.
\<close>

definition window_mean :: "'a float_ops \<Rightarrow> (int \<Rightarrow> 'a) \<Rightarrow> int \<Rightarrow> int \<Rightarrow> 'a" where
  "window_mean ops f lo hi =
     fdiv ops (foldl (fadd ops) (fzero ops) (map f [lo..hi - 1])) (int (length [lo..hi - 1]))"

text \<open>
  The horizontal pass as the specification words it, to compare: the mean over the
  half-open window \<open>[max(x - r, 0), min(x + r, W))\<close>.
\<close>

definition spec_blur_h :: "'a float_ops \<Rightarrow> 'a list \<Rightarrow> int \<Rightarrow> int \<Rightarrow> int \<Rightarrow> int \<Rightarrow> int \<Rightarrow> 'a" where
  "spec_blur_h ops buf data r w y x =
     window_mean ops (\<lambda>dx. buf ! nat (data + INPUT_NUM_CHANNELS * (y * w + dx)))
       (max (x - r) 0) (min (x + r) w)"

text \<open>Exact rational arithmetic as one choice of the float operations.\<close>

definition rat_ops :: "rat float_ops" where
  "rat_ops = \<lparr> fzero = 0, fadd = (+), fdiv = (\<lambda>s n. s / of_int n),
               fclamp = (\<lambda>v. min (max v (- 100000000)) 100000000) \<rparr>"

text \<open>One slab of 6 by 1 pixels whose intensities are 0, 0, 0, 0, 0, 6.\<close>

definition ex_slab :: "rat list" where
  "ex_slab = concat (map (\<lambda>v. replicate 14 0 @ [v]) [0, 0, 0, 0, 0, 6])"

subsection \<open>Channel names\<close>

fun rfind :: "string \<Rightarrow> char \<Rightarrow> nat option" where
  "rfind [] c = None"
| "rfind (x # xs) c =
     (case rfind xs c of
        Some pos \<Rightarrow> Some (Suc pos)
      | None \<Rightarrow> if x = c then Some 0 else None)"

text \<open>
  \<open>split_last_dot\<close> returns the new value of \<open>in\<close> and the suffix, or \<open>None\<close> for
  \<open>false\<close>.
\<close>

definition split_last_dot :: "string \<Rightarrow> (string \<times> string) option" where
  "split_last_dot s =
     (case rfind s (CHR ''.'') of
        None \<Rightarrow> None
      | Some pos \<Rightarrow> Some (take pos s, drop (pos + 1) s))"

text \<open>\<open>parse_channel_name\<close> returns the render layer, the pass and the channel.\<close>

definition parse_channel_name :: "string \<Rightarrow> bool \<Rightarrow> (string \<times> string \<times> string) option" where
  "parse_channel_name nm multiview_channels =
     (case split_last_dot nm of
        None \<Rightarrow> None
      | Some (nm1, channel) \<Rightarrow>
          (case (if multiview_channels then split_last_dot nm1 else Some (nm1, [])) of
             None \<Rightarrow> None
           | Some (nm2, view) \<Rightarrow>
               (case split_last_dot nm2 of
                  None \<Rightarrow> None
                | Some (renderlayer, pass) \<Rightarrow>
                    Some (if multiview_channels then renderlayer @ ''.'' @ view else renderlayer,
                          pass, channel))))"

subsection \<open>detect\_denoising\_channels\<close>

text \<open>\<open>find\<close> on a vector of strings: the first index of the name, if any.\<close>

fun find_string :: "string list \<Rightarrow> string \<Rightarrow> nat option" where
  "find_string [] nm = None"
| "find_string (c # cs) nm = (if c = nm then Some 0 else map_option Suc (find_string cs nm))"

text \<open>
  One \<open>foreach\<close> loop over a channel map: every mapping must be found among the
  layer's channels (\<open>None\<close> is \<open>return false\<close>), and its slot of the table gets the
  file channel of the layer channel.
\<close>

fun map_channels :: "ChannelMapping list \<Rightarrow> string list \<Rightarrow> int list \<Rightarrow> int list \<Rightarrow> int list option" where
  "map_channels [] chans l2i table = Some table"
| "map_channels ((channel, nm) # rest) chans l2i table =
     (case find_string chans nm of
        None \<Rightarrow> None
      | Some layer_channel \<Rightarrow>
          map_channels rest chans l2i (table[nat channel := l2i ! layer_channel]))"

definition detect_denoising_channels :: "DenoiseImageLayer \<Rightarrow> DenoiseImageLayer option" where
  "detect_denoising_channels layer =
     (case map_channels input_channels (channels layer) (layer_to_image_channel layer)
             (replicate (nat INPUT_NUM_CHANNELS) (- 1)) of
        None \<Rightarrow> None
      | Some i2i \<Rightarrow>
          (case map_channels output_channels (channels layer) (layer_to_image_channel layer)
                  (replicate (nat OUTPUT_NUM_CHANNELS) (- 1)) of
             None \<Rightarrow> None
           | Some o2i \<Rightarrow>
               Some (layer\<lparr>input_to_image_channel := i2i, output_to_image_channel := o2i\<rparr>)))"

subsection \<open>parse\_channels\<close>

text \<open>
  Modelled from the spec: the image container (OpenImageIO) is not under src/. Of an
  \<open>ImageSpec\<close> the code uses the dimensions, the channel count, the ordered channel
  names and the typed attributes; \<open>find_attribute\<close> returns the first attribute of
  that name, and \<open>get_string_attribute\<close> the value of a string attribute or the
  default.
\<close>

datatype ParamValue = StringAttr string | StringArrayAttr "string list" | OtherAttr

record ImageSpec =
  spec_width :: int
  spec_height :: int
  nchannels :: int
  channelnames :: "string list"
  extra_attribs :: "(string \<times> ParamValue) list"

definition find_attribute :: "ImageSpec \<Rightarrow> string \<Rightarrow> ParamValue option" where
  "find_attribute spec nm = map_of (extra_attribs spec) nm"

definition get_string_attribute :: "ImageSpec \<Rightarrow> string \<Rightarrow> string \<Rightarrow> string" where
  "get_string_attribute spec nm defaultval =
     (case find_attribute spec nm of Some (StringAttr v) \<Rightarrow> v | _ \<Rightarrow> defaultval)"

text \<open>
  The three results of \<open>sscanf(s, "%d", &n)\<close>: end of input before a conversion
  (\<open>EOF\<close>, which is not 0), no match (0), or one integer read (1). The function itself
  is a parameter \<open>scan\<close> of \<open>parse_channels\<close>.
\<close>

datatype scan_result = ScanEOF | ScanNoMatch | ScanInt int

text \<open>
  \<open>std::map<string, DenoiseImageLayer>\<close> is an association list kept in ascending
  order of its keys, the order in which the map is iterated; \<open>std_map_update k f d m\<close>
  is \<open>m[k] = f(m[k])\<close>, where a missing key is first given the default value \<open>d\<close>.
  Strings compare as \<open>std::string\<close> does: lexicographically, by byte value.
\<close>

fun std_map_update :: "'k::linorder \<Rightarrow> ('v \<Rightarrow> 'v) \<Rightarrow> 'v \<Rightarrow> ('k \<times> 'v) list \<Rightarrow> ('k \<times> 'v) list" where
  "std_map_update k f d [] = [(k, f d)]"
| "std_map_update k f d ((k', v) # m) =
     (if k = k' then (k', f v) # m
      else if k < k' then (k, f d) # (k', v) # m
      else (k', v) # std_map_update k f d m)"

definition empty_layer :: DenoiseImageLayer where
  "empty_layer =
     \<lparr> name = [], channels = [], layer_to_image_channel = [], input_to_image_channel = [],
       output_to_image_channel = [], samples = 0 \<rparr>"

text \<open>
  The first loop: \<open>mv\<close> is \<open>multiview_channels\<close> and \<open>i\<close> the index of the head
  of the remaining channel names.
\<close>

fun collect_layers ::
  "bool \<Rightarrow> string list \<Rightarrow> int \<Rightarrow> (string \<times> DenoiseImageLayer) list \<Rightarrow> (string \<times> DenoiseImageLayer) list" where
  "collect_layers mv [] i file_layers = file_layers"
| "collect_layers mv (c # cs) i file_layers =
     collect_layers mv cs (i + 1)
       (case parse_channel_name c mv of
          None \<Rightarrow> file_layers
        | Some (layer, pass, channel) \<Rightarrow>
            std_map_update layer
              (\<lambda>l. l\<lparr>channels := channels l @ [pass @ ''.'' @ channel],
                      layer_to_image_channel := layer_to_image_channel l @ [i]\<rparr>)
              empty_layer file_layers)"

text \<open>
  The sample count of one layer that passed the detection (the body of the second loop
  after \<open>continue\<close>): the layer with its name and samples, or the error message.
\<close>

definition resolve_samples ::
  "ImageSpec \<Rightarrow> (string \<Rightarrow> scan_result) \<Rightarrow> int \<Rightarrow> string \<Rightarrow> DenoiseImageLayer \<Rightarrow> string + DenoiseImageLayer" where
  "resolve_samples in_spec scan smp nm layer0 =
     (let layer = layer0\<lparr>name := nm, samples := smp\<rparr>;
          sample_string = get_string_attribute in_spec (''cycles.'' @ nm @ ''.samples'') []
      in if samples layer < 1 \<and> sample_string \<noteq> [] \<and> scan sample_string = ScanNoMatch
         then Inl (''Failed to parse samples metadata: '' @ sample_string)
         else
           (let layer' =
                  (if samples layer < 1 \<and> sample_string \<noteq> []
                   then (case scan sample_string of ScanInt v \<Rightarrow> layer\<lparr>samples := v\<rparr> | _ \<Rightarrow> layer)
                   else layer)
            in if samples layer' < 1
               then Inl (''No sample number specified in the file for layer '' @ nm @
                         '' or on the command line'')
               else Inr layer'))"

fun select_layers ::
  "ImageSpec \<Rightarrow> (string \<Rightarrow> scan_result) \<Rightarrow> int \<Rightarrow> (string \<times> DenoiseImageLayer) list \<Rightarrow>
     DenoiseImageLayer list \<Rightarrow> string + DenoiseImageLayer list" where
  "select_layers in_spec scan smp [] ls = Inr ls"
| "select_layers in_spec scan smp ((nm, layer) # rest) ls =
     (case detect_denoising_channels layer of
        None \<Rightarrow> select_layers in_spec scan smp rest ls
      | Some layer1 \<Rightarrow>
          (case resolve_samples in_spec scan smp nm layer1 of
             Inl err \<Rightarrow> Inl err
           | Inr layer2 \<Rightarrow> select_layers in_spec scan smp rest (ls @ [layer2])))"

text \<open>
  \<open>parse_channels in_spec scan smp\<close>: \<open>smp\<close> is the member \<open>samples\<close> of the image,
  set from \<open>denoiser->samples_override\<close>; the result is the error message or the
  member \<open>layers\<close>.
\<close>

definition multiview_channels :: "ImageSpec \<Rightarrow> bool" where
  "multiview_channels in_spec =
     (case find_attribute in_spec ''multiView'' of
        Some (StringArrayAttr vs) \<Rightarrow> 2 \<le> length vs
      | _ \<Rightarrow> False)"

definition file_layers :: "ImageSpec \<Rightarrow> (string \<times> DenoiseImageLayer) list" where
  "file_layers in_spec = collect_layers (multiview_channels in_spec) (channelnames in_spec) 0 []"

definition parse_channels ::
  "ImageSpec \<Rightarrow> (string \<Rightarrow> scan_result) \<Rightarrow> int \<Rightarrow> string + DenoiseImageLayer list" where
  "parse_channels in_spec scan smp = select_layers in_spec scan smp (file_layers in_spec) []"

subsection \<open>exec: the loop over the layers\<close>

text \<open>
  The device is outside the code: \<open>load_input\<close> stands for \<open>load_input_pixels\<close>
  (\<open>None\<close> is its \<open>false\<close>), \<open>run_device\<close> for \<open>create_task\<close>, \<open>task_add\<close> and
  \<open>task_wait\<close> on the current layer, \<open>n\<close> is \<open>image.layers.size()\<close> and \<open>cur\<close> is \<open>current_layer\<close>.
\<close>

function exec_loop ::
  "(nat \<Rightarrow> 's \<Rightarrow> 's option) \<Rightarrow> (nat \<Rightarrow> 's \<Rightarrow> 's) \<Rightarrow> nat \<Rightarrow> nat \<Rightarrow> 's \<Rightarrow> 's option" where
  "exec_loop load_input run_device n cur st =
     (if cur < n
      then (case (if 0 < cur then load_input cur st else Some st) of
              None \<Rightarrow> None
            | Some st1 \<Rightarrow>
                exec_loop load_input run_device n (cur + 1) (run_device cur st1))
      else Some st)"
  by pat_completeness auto
termination
  by (relation "measure (\<lambda>(load_input, run_device, n, cur, st). n - cur)") auto
declare exec_loop.simps [simp del]

text \<open>
  The order of first occurrence of the layer keys in the channel names, which the
  specification calls the discovery order, to compare.
\<close>

fun discovery_order :: "bool \<Rightarrow> string list \<Rightarrow> string list \<Rightarrow> string list" where
  "discovery_order mv [] seen = seen"
| "discovery_order mv (c # cs) seen =
     discovery_order mv cs
       (case parse_channel_name c mv of
          None \<Rightarrow> seen
        | Some (layer, pass, channel) \<Rightarrow> if layer \<in> set seen then seen else seen @ [layer])"

subsection \<open>save\_output\<close>

text \<open>
  Modelled from the spec: the writer side of the image container and the file system
  (OpenImageIO) are not under src/. A file system maps a path to the content of the file
  there; a file being written is \<open>PartialFile\<close> until it is closed after a complete
  write. What the outside world decides in one call of \<open>save_output\<close> is a record
  \<open>save_env\<close>: the unique suffix and the extension, whether \<open>create\<close>,
  \<open>write_image\<close>, \<open>close\<close> and \<open>rename\<close> succeed, how \<open>open\<close> ends (it may
  fail before or after it has created the file), the error texts, and how \<open>%d\<close>
  prints.
\<close>

datatype 'a file_content = PartialFile | ImageFile ImageSpec "'a list"

datatype open_outcome = OpenOk | OpenFailedNoFile | OpenFailedFileLeft

record save_env =
  unique_path :: string
  extension_of :: "string \<Rightarrow> string"
  create_ok :: bool
  open_result :: open_outcome
  write_ok :: bool
  close_ok :: bool
  rename_ok :: bool
  geterror :: string
  rename_error :: string
  printf_d :: "int \<Rightarrow> string"

definition find_string_attribute :: "ImageSpec \<Rightarrow> string \<Rightarrow> bool" where
  "find_string_attribute spec nm \<longleftrightarrow>
     (\<exists>v \<in> set (extra_attribs spec). fst v = nm \<and> (case snd v of StringAttr _ \<Rightarrow> True | _ \<Rightarrow> False))"

definition set_string_attribute :: "ImageSpec \<Rightarrow> string \<Rightarrow> string \<Rightarrow> ImageSpec" where
  "set_string_attribute spec nm v =
     spec\<lparr>extra_attribs := filter (\<lambda>a. fst a \<noteq> nm) (extra_attribs spec) @ [(nm, StringAttr v)]\<rparr>"

text \<open>The loop that makes sure the output carries the sample count of every layer.\<close>

fun add_samples_attributes :: "save_env \<Rightarrow> DenoiseImageLayer list \<Rightarrow> ImageSpec \<Rightarrow> ImageSpec" where
  "add_samples_attributes env [] out_spec = out_spec"
| "add_samples_attributes env (layer # rest) out_spec =
     add_samples_attributes env rest
       (let nm = ''cycles.'' @ name layer @ ''.samples''
        in if \<not> find_string_attribute out_spec nm
           then set_string_attribute out_spec nm (printf_d env (samples layer))
           else out_spec)"

text \<open>
  \<open>save_output env in_spec ls px out_filepath error fs\<close> returns the flag, the error
  string and the file system afterwards. \<open>ok1\<close>, \<open>ok2\<close> and \<open>ok3\<close> are the values
  of \<open>ok\<close> after the write, the close and the rename.
\<close>

definition save_output ::
  "save_env \<Rightarrow> ImageSpec \<Rightarrow> DenoiseImageLayer list \<Rightarrow> 'a list \<Rightarrow> string \<Rightarrow> string \<Rightarrow>
     (string \<Rightarrow> 'a file_content option) \<Rightarrow> bool \<times> string \<times> (string \<Rightarrow> 'a file_content option)" where
  "save_output env in_spec ls px out_filepath error fs =
     (let out_spec = add_samples_attributes env ls in_spec;
          extension = extension_of env out_filepath;
          unique_name = ''.denoise-tmp-'' @ unique_path env;
          tmp_filepath = out_filepath @ unique_name @ extension
      in if \<not> create_ok env
         then (False, ''Failed to open temporary file '' @ tmp_filepath @ '' for writing'', fs)
         else
           (case open_result env of
              OpenFailedNoFile \<Rightarrow>
                (False, ''Failed to open file '' @ tmp_filepath @ '' for writing: '' @ geterror env, fs)
            | OpenFailedFileLeft \<Rightarrow>
                (False, ''Failed to open file '' @ tmp_filepath @ '' for writing: '' @ geterror env,
                 fs(tmp_filepath \<mapsto> PartialFile))
            | OpenOk \<Rightarrow>
                (let fs1 = fs(tmp_filepath \<mapsto> PartialFile);
                     ok1 = write_ok env;
                     error1 = (if \<not> write_ok env
                               then ''Failed to write to file '' @ tmp_filepath @ '': '' @ geterror env
                               else error);
                     fs2 = (if write_ok env \<and> close_ok env
                            then fs1(tmp_filepath \<mapsto> ImageFile out_spec px) else fs1);
                     ok2 = (ok1 \<and> close_ok env);
                     error2 = (if \<not> close_ok env
                               then ''Failed to save to file '' @ tmp_filepath @ '': '' @ geterror env
                               else error1);
                     renamed = (ok2 \<and> rename_ok env);
                     fs3 = (if renamed
                            then fs2(out_filepath := fs2 tmp_filepath, tmp_filepath := None)
                            else fs2);
                     ok3 = (ok2 \<and> rename_ok env);
                     error3 = (if ok2 \<and> \<not> rename_ok env
                               then ''Failed to move denoised image to '' @ out_filepath @ '': '' @
                                    rename_error env
                               else error2);
                     fs4 = (if \<not> ok3 then fs3(tmp_filepath := None) else fs3)
                 in (ok3, error3, fs4))))"

text \<open>The path of the temporary file of a call.\<close>

definition tmp_filepath_of :: "save_env \<Rightarrow> string \<Rightarrow> string" where
  "tmp_filepath_of env out_filepath =
     out_filepath @ ''.denoise-tmp-'' @ unique_path env @ extension_of env out_filepath"

subsection \<open>Invariants of the first loop of parse\_channels\<close>

text \<open>
  Before the channel of index \<open>i\<close> is read, every layer has as many channel names as
  file channels, its file channels are indices below \<open>i\<close>, and they are distinct.
\<close>

definition layer_indices_below :: "int \<Rightarrow> (string \<times> DenoiseImageLayer) list \<Rightarrow> bool" where
  "layer_indices_below i m \<longleftrightarrow>
     (\<forall>(k, l) \<in> set m. length (channels l) = length (layer_to_image_channel l) \<and>
        (\<forall>c \<in> set (layer_to_image_channel l). 0 \<le> c \<and> c < i))"

definition layers_distinct :: "int \<Rightarrow> (string \<times> DenoiseImageLayer) list \<Rightarrow> bool" where
  "layers_distinct i m \<longleftrightarrow>
     (\<forall>(k, l) \<in> set m. distinct (layer_to_image_channel l) \<and>
        (\<forall>c \<in> set (layer_to_image_channel l). c < i))"

subsection \<open>Sequences of writes\<close>

text \<open>
  The nested copy loops are compared with the list of writes they perform, applied in
  order; a write outside the buffer fails, as in the loops.
\<close>

fun apply_writes :: "(int \<times> 'a) list \<Rightarrow> 'a list \<Rightarrow> 'a list option" where
  "apply_writes [] px = Some px"
| "apply_writes ((j, v) # ws) px = Option.bind (array_set px j v) (apply_writes ws)"

subsection \<open>A concrete file, image and task\<close>

text \<open>
  A single-layer file with its channels in the alphabetical order of an EXR file, an
  image of 3 by 2 pixels whose floats are numbered, and a task with tiles of 2 by 2.
\<close>

definition ex_channelnames :: "string list" where
  "ex_channelnames =
    [''RenderLayer.Combined.A'', ''RenderLayer.Combined.B'', ''RenderLayer.Combined.G'',
     ''RenderLayer.Combined.R'', ''RenderLayer.Denoising Albedo.B'',
     ''RenderLayer.Denoising Albedo.G'', ''RenderLayer.Denoising Albedo.R'',
     ''RenderLayer.Denoising Depth.Z'', ''RenderLayer.Denoising Intensity.X'',
     ''RenderLayer.Denoising Normal.X'', ''RenderLayer.Denoising Normal.Y'',
     ''RenderLayer.Denoising Normal.Z'', ''RenderLayer.Denoising Shadowing.X'',
     ''RenderLayer.Denoising Variance.B'', ''RenderLayer.Denoising Variance.G'',
     ''RenderLayer.Denoising Variance.R'', ''RenderLayer.Noisy Image.B'',
     ''RenderLayer.Noisy Image.G'', ''RenderLayer.Noisy Image.R'']"

definition ex_layer :: DenoiseImageLayer where
  "ex_layer =
    \<lparr> name = ''RenderLayer'',
      channels = [''Combined.A'', ''Combined.B'', ''Combined.G'', ''Combined.R'',
        ''Denoising Albedo.B'', ''Denoising Albedo.G'', ''Denoising Albedo.R'',
        ''Denoising Depth.Z'', ''Denoising Intensity.X'', ''Denoising Normal.X'',
        ''Denoising Normal.Y'', ''Denoising Normal.Z'', ''Denoising Shadowing.X'',
        ''Denoising Variance.B'', ''Denoising Variance.G'', ''Denoising Variance.R'',
        ''Noisy Image.B'', ''Noisy Image.G'', ''Noisy Image.R''],
      layer_to_image_channel = [0, 1, 2, 3, 4, 5, 6, 7, 8, 9, 10, 11, 12, 13, 14, 15, 16, 17, 18],
      input_to_image_channel = [7, 9, 10, 11, 12, 6, 5, 4, 18, 17, 16, 15, 14, 13, 8],
      output_to_image_channel = [3, 2, 1],
      samples = 16 \<rparr>"

definition ex_image :: "rat DenoiseImage" where
  "ex_image =
    \<lparr> width = 3, height = 2, num_channels = 19, image_samples = 0,
      pixels = map of_nat [0..<114], layers = [ex_layer] \<rparr>"

definition ex_task :: "rat DenoiseTask" where
  "ex_task =
    \<lparr> task_image = ex_image, tile_size = (2, 2), current_layer = 0, input_pixels = 4096,
      tiles = [], num_tiles = 0, output_pixels = Map.empty \<rparr>"

text \<open>
  The array of ten tiles the device passes for the second tile of the grid (only slot 4
  matters on entry), a registered output buffer, and the tiles after the mapping.
\<close>

definition ex_center :: RenderTile where
  "ex_center =
    \<lparr> tile_x = 2, tile_y = 0, tile_w = 1, tile_h = 2, start_sample = 0, num_samples = 16,
      tile_sample = 0, tile_offset = 0, tile_stride = 3, tile_index = 1, tile_task = DENOISE,
      tile_buffer = 4096 \<rparr>"





text \<open>
  The file of the concrete image with the sample count in its metadata, a reading of
  decimal integers for \<open>scan\<close>, and a file of two layers whose channels of layer
  \<open>B\<close> come before those of layer \<open>A\<close>.
\<close>

definition ex_spec :: ImageSpec where
  "ex_spec =
    \<lparr> spec_width = 3, spec_height = 2, nchannels = 19, channelnames = ex_channelnames,
      extra_attribs = [(''cycles.RenderLayer.samples'', StringAttr ''16'')] \<rparr>"

fun scan_digits :: "string \<Rightarrow> int \<Rightarrow> int" where
  "scan_digits [] acc = acc"
| "scan_digits (c # cs) acc =
     (if CHR ''0'' \<le> c \<and> c \<le> CHR ''9''
      then scan_digits cs (10 * acc + (int (of_char c) - 48))
      else acc)"

text \<open>
  Modelled from the spec: \<open>sscanf\<close> belongs to the C library, not to src/; the spec has
  the attribute "read as a decimal string". Leading blanks are skipped, then a sign may
  stand before the digits.
\<close>

fun decimal_scan :: "string \<Rightarrow> scan_result" where
  "decimal_scan [] = ScanEOF"
| "decimal_scan (c # cs) =
     (if c = CHR '' '' then decimal_scan cs
      else if c = CHR ''-'' \<and> cs \<noteq> [] \<and> CHR ''0'' \<le> hd cs \<and> hd cs \<le> CHR ''9''
        then ScanInt (- scan_digits cs 0)
      else if c = CHR ''+'' \<and> cs \<noteq> [] \<and> CHR ''0'' \<le> hd cs \<and> hd cs \<le> CHR ''9''
        then ScanInt (scan_digits cs 0)
      else if CHR ''0'' \<le> c \<and> c \<le> CHR ''9'' then ScanInt (scan_digits (c # cs) 0)
      else ScanNoMatch)"

definition ex_two_layers :: ImageSpec where
  "ex_two_layers =
    \<lparr> spec_width = 3, spec_height = 2, nchannels = 36,
      channelnames = map (\<lambda>c. ''B.'' @ c) (map snd (input_channels @ output_channels)) @
                     map (\<lambda>c. ''A.'' @ c) (map snd (input_channels @ output_channels)),
      extra_attribs = [] \<rparr>"

text \<open>The file of the concrete image without the sample count.\<close>

definition ex_spec_no_samples :: ImageSpec where
  "ex_spec_no_samples = ex_spec\<lparr>extra_attribs := []\<rparr>"

text \<open>
  A call of \<open>save_output\<close> in which \<open>open\<close> creates the temporary file and then
  fails, on a file system that holds an older image at the target path.
\<close>

definition ex_env_open_fails :: save_env where
  "ex_env_open_fails =
    \<lparr> unique_path = ''1a2b'', extension_of = (\<lambda>p. ''.exr''), create_ok = True,
      open_result = OpenFailedFileLeft, write_ok = True, close_ok = True, rename_ok = True,
      geterror = ''disk full'', rename_error = [], printf_d = (\<lambda>n. ''16'') \<rparr>"

definition ex_fs :: "string \<Rightarrow> rat file_content option" where
  "ex_fs = [''out.exr'' \<mapsto> ImageFile ex_spec [0]]"

section \<open>Verified properties\<close>

subsection \<open>The tile grid of create\_task\<close>

lemma divide_up_bounds:
  assumes "1 \<le> b"
  shows "a \<le> divide_up a b * b" "divide_up a b * b < a + b"
proof -
  let ?c = "a + b - 1"
  have m: "0 \<le> ?c mod b" "?c mod b < b" using assms by simp_all
  have e: "?c div b * b = ?c - ?c mod b" by (simp add: algebra_simps minus_mod_eq_mult_div)
  show "a \<le> divide_up a b * b" unfolding divide_up_def e using m by linarith
  show "divide_up a b * b < a + b" unfolding divide_up_def e using m by linarith
qed

lemma divide_up_ceiling:
  assumes "1 \<le> b"
  shows "divide_up a b = \<lceil>real_of_int a / real_of_int b\<rceil>"
proof -
  have b: "0 < real_of_int b" using assms by simp
  have 1: "real_of_int a \<le> real_of_int (divide_up a b) * real_of_int b"
    using divide_up_bounds(1)[OF assms, of a] by (metis of_int_le_iff of_int_mult)
  have 2: "real_of_int (divide_up a b) * real_of_int b < real_of_int a + real_of_int b"
    using divide_up_bounds(2)[OF assms, of a] by (metis of_int_less_iff of_int_mult of_int_add)
  have "real_of_int a / real_of_int b \<le> real_of_int (divide_up a b)"
    using 1 b by (simp add: pos_divide_le_eq)
  moreover have "real_of_int (divide_up a b) - 1 < real_of_int a / real_of_int b"
  proof -
    have "(real_of_int (divide_up a b) - 1) * real_of_int b < real_of_int a"
      using 2 by (simp add: algebra_simps)
    then show ?thesis using b by (simp add: pos_less_divide_eq)
  qed
  ultimately show ?thesis by (simp add: ceiling_unique)
qed

lemma length_concat_grid:
  "length (concat (map (\<lambda>j. map (f j) [0..<n]) [0..<m])) = n * m"
  by (induction m) (auto simp: algebra_simps)

lemma nth_concat_grid:
  "i < n * m \<Longrightarrow> concat (map (\<lambda>j. map (f j) [0..<n]) [0..<m]) ! i = f (i div n) (i mod n)"
proof (induction m)
  case 0
  then show ?case by simp
next
  case (Suc m)
  show ?case
  proof (cases "i < n * m")
    case True
    then show ?thesis using Suc.IH by (simp add: nth_append length_concat_grid)
  next
    case False
    then have lo: "n * m \<le> i" by simp
    have hi: "i < n * m + n" using Suc.prems by simp
    have npos: "0 < n" using hi lo by (cases n) auto
    obtain r where r: "i = r + m * n" "r < n"
      using lo hi by (metis add.commute le_Suc_ex mult.commute nat_add_left_cancel_less)
    have "i div n = m" "i mod n = i - n * m"
      using r npos by (simp_all add: algebra_simps)
    then show ?thesis using False Suc.prems r by (simp add: nth_append length_concat_grid algebra_simps)
  qed
qed


lemma int_divmod_unique:
  fixes n q r :: int
  assumes "0 \<le> r" "r < n"
  shows "(q * n + r) div n = q" "(q * n + r) mod n = r"
  using assms by (simp_all add: add.commute)

lemma int_div_bracket:
  fixes n c p :: int
  assumes "c * n \<le> p" "p < c * n + n"
  shows "p div n = c"
proof -
  have "0 \<le> p - c * n" "p - c * n < n" using assms by simp_all
  from int_divmod_unique(1)[OF this, of c] show ?thesis by simp
qed

lemma int_div_mult_bounds:
  fixes n p :: int
  assumes "0 < n"
  shows "p div n * n \<le> p" "p < p div n * n + n"
proof -
  have e: "p div n * n + p mod n = p" by simp
  have m: "0 \<le> p mod n" "p mod n < n" using assms by simp_all
  show "p div n * n \<le> p" using e m by linarith
  show "p < p div n * n + n" using e m by linarith
qed

lemma int_div_less_grid:
  fixes n p m :: int
  assumes "0 < n" "p < m * n"
  shows "p div n < m"
proof -
  have "p div n * n \<le> p" using assms(1) by (rule int_div_mult_bounds)
  then have "p div n * n < m * n" using assms(2) by simp
  then show ?thesis using assms(1) by (simp add: mult_less_cancel_right)
qed

lemma clip_less:
  fixes a p tw W :: int
  assumes "p < a + tw" "p < W"
  shows "p < a + min (W - a) tw"
  using assms by (simp add: min_def)

lemma in_tile_new_tile_iff:
  assumes "0 < fst (tile_size T)" "0 < snd (tile_size T)"
    and "0 \<le> px" "px < width (task_image T)" "0 \<le> py" "py < height (task_image T)"
  shows "in_tile (new_tile T n r c) px py \<longleftrightarrow>
     c = px div fst (tile_size T) \<and> r = py div snd (tile_size T)"
proof
  assume a: "in_tile (new_tile T n r c) px py"
  have g: "tile_x (new_tile T n r c) = c * fst (tile_size T)"
    "tile_y (new_tile T n r c) = r * snd (tile_size T)"
    "tile_w (new_tile T n r c) \<le> fst (tile_size T)"
    "tile_h (new_tile T n r c) \<le> snd (tile_size T)"
    by (simp_all add: new_tile_def Let_def)
  have cx: "c * fst (tile_size T) \<le> px" "px < c * fst (tile_size T) + fst (tile_size T)"
    and cy: "r * snd (tile_size T) \<le> py" "py < r * snd (tile_size T) + snd (tile_size T)"
    using a g unfolding in_tile_def by linarith+
  show "c = px div fst (tile_size T) \<and> r = py div snd (tile_size T)"
    using int_div_bracket[OF cx] int_div_bracket[OF cy] by simp
next
  assume b: "c = px div fst (tile_size T) \<and> r = py div snd (tile_size T)"
  let ?tw = "fst (tile_size T)" and ?th = "snd (tile_size T)"
  have x: "px div ?tw * ?tw \<le> px" "px < px div ?tw * ?tw + ?tw"
    using int_div_mult_bounds[OF assms(1)] by simp_all
  have y: "py div ?th * ?th \<le> py" "py < py div ?th * ?th + ?th"
    using int_div_mult_bounds[OF assms(2)] by simp_all
  have "in_tile (new_tile T n r c) px py \<longleftrightarrow>
      px div ?tw * ?tw \<le> px \<and> px < px div ?tw * ?tw + min (width (task_image T) - px div ?tw * ?tw) ?tw \<and>
      py div ?th * ?th \<le> py \<and> py < py div ?th * ?th + min (height (task_image T) - py div ?th * ?th) ?th"
    unfolding in_tile_def new_tile_def Let_def using b by simp
  then show "in_tile (new_tile T n r c) px py"
    using x y clip_less[OF x(2) assms(4)] clip_less[OF y(2) assms(6)] by blast
qed

lemma upt_nat_step:
  assumes "0 \<le> i" "i < n"
  shows "[nat i..<nat n] = nat i # [nat (i + 1)..<nat n]"
proof -
  have "nat i < nat n" using assms by simp
  then have "[nat i..<nat n] = nat i # [Suc (nat i)..<nat n]" by (rule upt_conv_Cons)
  moreover have "Suc (nat i) = nat (i + 1)" using assms(1) by (simp add: nat_add_distrib)
  ultimately show ?thesis by simp
qed

lemma create_tiles_x_eq:
  "0 \<le> tx \<Longrightarrow> create_tiles_x T n ty tx ts =
     ts @ map (\<lambda>k. new_tile T n ty (int k)) [nat tx..<nat n]"
proof (induction T n ty tx ts rule: create_tiles_x.induct)
  case (1 T n ty tx ts)
  show ?case
  proof (cases "tx < n")
    case True
    have "create_tiles_x T n ty tx ts =
        create_tiles_x T n ty (tx + 1) (ts @ [new_tile T n ty tx])"
      using True by (subst create_tiles_x.simps) simp
    also have "\<dots> = (ts @ [new_tile T n ty tx]) @
        map (\<lambda>k. new_tile T n ty (int k)) [nat (tx + 1)..<nat n]"
      using "1.IH"[OF True] "1.prems" by simp
    finally show ?thesis using upt_nat_step[OF "1.prems" True] "1.prems" by simp
  next
    case False
    then have a: "create_tiles_x T n ty tx ts = ts" by (subst create_tiles_x.simps) simp
    have "nat n \<le> nat tx" using False by simp
    then show ?thesis unfolding a by simp
  qed
qed

lemma create_tiles_y_eq:
  "0 \<le> ty \<Longrightarrow> create_tiles_y T n m ty ts =
     ts @ concat (map (\<lambda>j. map (\<lambda>k. new_tile T n (int j) (int k)) [0..<nat n]) [nat ty..<nat m])"
proof (induction T n m ty ts rule: create_tiles_y.induct)
  case (1 T n m ty ts)
  show ?case
  proof (cases "ty < m")
    case True
    have "create_tiles_y T n m ty ts =
        create_tiles_y T n m (ty + 1) (create_tiles_x T n ty 0 ts)"
      using True by (subst create_tiles_y.simps) simp
    also have "\<dots> = create_tiles_x T n ty 0 ts @
        concat (map (\<lambda>j. map (\<lambda>k. new_tile T n (int j) (int k)) [0..<nat n]) [nat (ty + 1)..<nat m])"
      using "1.IH"[OF True] "1.prems" by simp
    finally show ?thesis
      using upt_nat_step[OF "1.prems" True] "1.prems" by (simp add: create_tiles_x_eq)
  next
    case False
    then have a: "create_tiles_y T n m ty ts = ts" by (subst create_tiles_y.simps) simp
    have "nat m \<le> nat ty" using False by simp
    then show ?thesis unfolding a by simp
  qed
qed

lemma tiles_create_task:
  shows "tiles (create_task T) =
     concat (map (\<lambda>j. map (\<lambda>k. new_tile T (divide_up (width (task_image T)) (fst (tile_size T))) (int j) (int k))
        [0..<nat (divide_up (width (task_image T)) (fst (tile_size T)))])
        [0..<nat (divide_up (height (task_image T)) (snd (tile_size T)))])"
  by (simp add: create_task_def Let_def create_tiles_y_eq)

lemma nat_grid_index:
  assumes "c < n"
  shows "(r * n + c) div n = (r::nat)" "(r * n + c) mod n = c"
  using assms by simp_all

lemma create_task_tile_nth:
  assumes W: "1 \<le> width (task_image T)" and H: "1 \<le> height (task_image T)"
    and tw: "1 \<le> fst (tile_size T)" and th: "1 \<le> snd (tile_size T)"
    and i: "i < length (tiles (create_task T))"
  shows "tiles (create_task T) ! i =
     new_tile T (divide_up (width (task_image T)) (fst (tile_size T)))
       (int (i div nat (divide_up (width (task_image T)) (fst (tile_size T)))))
       (int (i mod nat (divide_up (width (task_image T)) (fst (tile_size T)))))"
  using i unfolding tiles_create_task
  by (simp add: length_concat_grid nth_concat_grid)

lemma divide_up_pos:
  assumes "1 \<le> a" "1 \<le> b"
  shows "1 \<le> divide_up a b"
proof -
  have "0 < divide_up a b * b" using divide_up_bounds(1)[OF assms(2), of a] assms(1) by linarith
  then have "0 < divide_up a b" using assms(2) by (simp add: zero_less_mult_iff)
  then show ?thesis by simp
qed

text \<open>
  C4. For an image of width and height at least 1 and a tile size of at least 1 by 1,
  \<open>create_task\<close> produces exactly \<open>ceil(W/tw) * ceil(H/th)\<close> tiles; tile \<open>i\<close> has
  index \<open>i\<close> and is the tile of column \<open>i mod ceil(W/tw)\<close> and row
  \<open>i div ceil(W/tw)\<close> (raster order), clipped to the image and not empty; every pixel
  of the image lies in exactly one tile; and an image no larger than one tile gives one
  tile of the image's width and height.
\<close>

theorem create_task_grid:
  assumes W: "1 \<le> width (task_image T)" and H: "1 \<le> height (task_image T)"
    and tw: "1 \<le> fst (tile_size T)" and th: "1 \<le> snd (tile_size T)"
  shows "let W = width (task_image T); H = height (task_image T);
             tw = fst (tile_size T); th = snd (tile_size T);
             nx = \<lceil>real_of_int W / real_of_int tw\<rceil>;
             ny = \<lceil>real_of_int H / real_of_int th\<rceil>;
             ts = tiles (create_task T)
         in int (length ts) = nx * ny \<and> num_tiles (create_task T) = nx * ny \<and>
            (\<forall>i < length ts.
               tile_index (ts ! i) = int i \<and>
               tile_x (ts ! i) = (int i mod nx) * tw \<and>
               tile_y (ts ! i) = (int i div nx) * th \<and>
               tile_w (ts ! i) = min (W - tile_x (ts ! i)) tw \<and>
               tile_h (ts ! i) = min (H - tile_y (ts ! i)) th \<and>
               0 \<le> tile_x (ts ! i) \<and> 1 \<le> tile_w (ts ! i) \<and> tile_x (ts ! i) + tile_w (ts ! i) \<le> W \<and>
               0 \<le> tile_y (ts ! i) \<and> 1 \<le> tile_h (ts ! i) \<and> tile_y (ts ! i) + tile_h (ts ! i) \<le> H) \<and>
            (\<forall>px py. 0 \<le> px \<and> px < W \<and> 0 \<le> py \<and> py < H \<longrightarrow>
               (\<exists>!i. i < length ts \<and> in_tile (ts ! i) px py)) \<and>
            (W \<le> tw \<and> H \<le> th \<longrightarrow>
               length ts = 1 \<and> tile_w (ts ! 0) = W \<and> tile_h (ts ! 0) = H)"
proof -
  define Wd where "Wd = width (task_image T)"
  define Hd where "Hd = height (task_image T)"
  define a where "a = fst (tile_size T)"
  define b where "b = snd (tile_size T)"
  define nx where "nx = divide_up Wd a"
  define ny where "ny = divide_up Hd b"
  define ts where "ts = tiles (create_task T)"
  note defs = Wd_def Hd_def a_def b_def nx_def ny_def ts_def
  have pos: "1 \<le> Wd" "1 \<le> Hd" "1 \<le> a" "1 \<le> b" using assms by (simp_all add: defs)
  have nxc: "nx = \<lceil>real_of_int Wd / real_of_int a\<rceil>"
    and nyc: "ny = \<lceil>real_of_int Hd / real_of_int b\<rceil>"
    using pos by (simp_all add: nx_def ny_def divide_up_ceiling)
  have nxpos: "1 \<le> nx" and nypos: "1 \<le> ny"
    using pos by (simp_all add: nx_def ny_def divide_up_pos)
  have bx: "Wd \<le> nx * a" "nx * a < Wd + a" and "by": "Hd \<le> ny * b" "ny * b < Hd + b"
    using divide_up_bounds[OF pos(3), of Wd] divide_up_bounds[OF pos(4), of Hd]
    by (simp_all add: nx_def ny_def)
  have len: "length ts = nat nx * nat ny"
    unfolding ts_def tiles_create_task by (simp add: length_concat_grid defs)
  have leni: "int (length ts) = nx * ny"
    using len nxpos nypos by (simp add: nat_mult_distrib)
  have nth: "ts ! i = new_tile T nx (int (i div nat nx)) (int (i mod nat nx))"
    if "i < length ts" for i
    using create_task_tile_nth[OF assms] that by (simp add: defs)
  have numt: "num_tiles (create_task T) = nx * ny"
    using leni by (simp add: create_task_def Let_def ts_def)
  have tile_props: "tile_index (ts ! i) = int i \<and>
               tile_x (ts ! i) = (int i mod nx) * a \<and>
               tile_y (ts ! i) = (int i div nx) * b \<and>
               tile_w (ts ! i) = min (Wd - tile_x (ts ! i)) a \<and>
               tile_h (ts ! i) = min (Hd - tile_y (ts ! i)) b \<and>
               0 \<le> tile_x (ts ! i) \<and> 1 \<le> tile_w (ts ! i) \<and> tile_x (ts ! i) + tile_w (ts ! i) \<le> Wd \<and>
               0 \<le> tile_y (ts ! i) \<and> 1 \<le> tile_h (ts ! i) \<and> tile_y (ts ! i) + tile_h (ts ! i) \<le> Hd"
    if i: "i < length ts" for i
  proof -
    define c where "c = int i mod nx"
    define r where "r = int i div nx"
    have ci: "int (i mod nat nx) = c" and ri: "int (i div nat nx) = r"
      using nxpos by (simp_all add: c_def r_def zmod_int zdiv_int)
    have t: "ts ! i = new_tile T nx r c" using nth[OF i] ci ri by simp
    have c: "0 \<le> c" "c < nx" using nxpos by (simp_all add: c_def)
    have r0: "0 \<le> r" using nxpos by (simp add: r_def pos_imp_zdiv_nonneg_iff)
    have "int i < ny * nx" using i leni by (simp add: mult.commute)
    then have r1: "r < ny" unfolding r_def using nxpos int_div_less_grid[of nx "int i" ny] by simp
    have idx: "r * nx + c = int i" by (simp add: c_def r_def)
    have "c * a \<le> (nx - 1) * a" using c pos by (simp add: mult_right_mono)
    then have cx: "c * a < Wd" using bx by (simp add: algebra_simps)
    have "r * b \<le> (ny - 1) * b" using r1 pos by (simp add: mult_right_mono)
    then have ry: "r * b < Hd" using "by" by (simp add: algebra_simps)
    have c0: "0 \<le> c * a" using c pos by simp
    have r0': "0 \<le> r * b" using r0 pos by simp
    have f: "tile_index (ts ! i) = r * nx + c" "tile_x (ts ! i) = c * a" "tile_y (ts ! i) = r * b"
      "tile_w (ts ! i) = min (Wd - c * a) a" "tile_h (ts ! i) = min (Hd - r * b) b"
      unfolding t by (simp_all add: new_tile_def Let_def defs)
    have m: "c * a + min (Wd - c * a) a \<le> Wd" "r * b + min (Hd - r * b) b \<le> Hd"
      by (simp_all add: min_def)
    show ?thesis unfolding f idx c_def[symmetric] r_def[symmetric]
      using cx ry c0 r0' pos m by simp
  qed
  have cover: "\<exists>!i. i < length ts \<and> in_tile (ts ! i) px py"
    if p: "0 \<le> px" "px < Wd" "0 \<le> py" "py < Hd" for px py
  proof -
    have a0: "0 < fst (tile_size T)" "0 < snd (tile_size T)" using tw th by simp_all
    have iff: "in_tile (new_tile T n r c) px py \<longleftrightarrow> c = px div a \<and> r = py div b" for n r c
      using in_tile_new_tile_iff[OF a0, of px py n r c] p by (simp add: defs)
    define c where "c = px div a"
    define r where "r = py div b"
    have c: "0 \<le> c" "c < nx"
      using p pos bx int_div_less_grid[of a px nx] by (simp_all add: c_def pos_imp_zdiv_nonneg_iff)
    have r: "0 \<le> r" "r < ny"
      using p pos "by" int_div_less_grid[of b py ny] by (simp_all add: r_def pos_imp_zdiv_nonneg_iff)
    define i0 where "i0 = nat r * nat nx + nat c"
    have cn: "nat c < nat nx" using c by simp
    have "nat r * nat nx + nat c < nat nx * nat ny"
    proof -
      have "nat r + 1 \<le> nat ny" using r by simp
      then have "(nat r + 1) * nat nx \<le> nat ny * nat nx" by (rule mult_le_mono1)
      then have "nat r * nat nx + nat nx \<le> nat nx * nat ny" by (simp add: algebra_simps)
      then show ?thesis using cn by linarith
    qed
    then have i0: "i0 < length ts" by (simp add: i0_def len)
    have d: "i0 div nat nx = nat r" "i0 mod nat nx = nat c"
      using nat_grid_index[OF cn, of "nat r"] by (simp_all add: i0_def)
    have "in_tile (ts ! i0) px py"
      unfolding nth[OF i0] d iff using c r by (simp add: c_def r_def)
    moreover have "i = i0" if i: "i < length ts" and "in_tile (ts ! i) px py" for i
    proof -
      have "int (i mod nat nx) = c \<and> int (i div nat nx) = r"
        using that(2) unfolding nth[OF i] iff by (simp add: c_def r_def)
      then have "i mod nat nx = nat c" "i div nat nx = nat r" by auto
      then have "i = nat r * nat nx + nat c" by (metis div_mult_mod_eq)
      then show ?thesis by (simp add: i0_def)
    qed
    ultimately show ?thesis using i0 by blast
  qed
  have single: "length ts = 1 \<and> tile_w (ts ! 0) = Wd \<and> tile_h (ts ! 0) = Hd"
    if s: "Wd \<le> a" "Hd \<le> b"
  proof -
    have "nx * a < 2 * a" using bx s by linarith
    then have "nx < 2" using pos by (simp add: mult_less_cancel_right)
    then have nx1: "nx = 1" using nxpos by simp
    have "ny * b < 2 * b" using "by" s by linarith
    then have "ny < 2" using pos by (simp add: mult_less_cancel_right)
    then have ny1: "ny = 1" using nypos by simp
    have l: "length ts = 1" using len nx1 ny1 by simp
    have "tile_w (ts ! 0) = min (Wd - tile_x (ts ! 0)) a" "tile_x (ts ! 0) = 0"
      "tile_h (ts ! 0) = min (Hd - tile_y (ts ! 0)) b" "tile_y (ts ! 0) = 0"
      using tile_props[of 0] l by simp_all
    then show ?thesis using l s by simp
  qed
  show ?thesis
    unfolding Let_def defs[symmetric] nxc[symmetric] nyc[symmetric]
    using leni numt tile_props cover single by blast
qed

theorem create_task_grid_witness:
  "length (tiles (create_task ex_task)) = 2 \<and> num_tiles (create_task ex_task) = 2"
  using create_task_grid[of ex_task]
  by (simp add: ex_task_def ex_image_def Let_def)


subsection \<open>The copy loops as sequences of writes\<close>

lemma apply_writes_append:
  "apply_writes (ws1 @ ws2) px = Option.bind (apply_writes ws1 px) (apply_writes ws2)"
  by (induction ws1 arbitrary: px) (auto split: Option.bind_splits)

lemma apply_writes_effect:
  assumes "\<forall>(j, v) \<in> set ws. 0 \<le> j \<and> j < int (length px)"
  shows "\<exists>px'. apply_writes ws px = Some px' \<and> length px' = length px \<and>
           (\<forall>j. int j \<notin> fst ` set ws \<longrightarrow> px' ! j = px ! j) \<and>
           (\<forall>j v. (j, v) \<in> set ws \<and> (\<forall>v'. (j, v') \<in> set ws \<longrightarrow> v' = v) \<longrightarrow> px' ! nat j = v)"
  using assms
proof (induction ws arbitrary: px)
  case Nil
  then show ?case by simp
next
  case (Cons a ws)
  obtain j v where a: "a = (j, v)" by (cases a)
  have j: "0 \<le> j" "j < int (length px)" using Cons.prems a by auto
  let ?p = "px[nat j := v]"
  have s: "array_set px j v = Some ?p" using j by (simp add: array_set_def)
  have "\<forall>(j, v) \<in> set ws. 0 \<le> j \<and> j < int (length ?p)" using Cons.prems by auto
  from Cons.IH[OF this] obtain px' where
    r: "apply_writes ws ?p = Some px'" "length px' = length ?p"
      "\<forall>i. int i \<notin> fst ` set ws \<longrightarrow> px' ! i = ?p ! i"
      "\<forall>i v. (i, v) \<in> set ws \<and> (\<forall>v'. (i, v') \<in> set ws \<longrightarrow> v' = v) \<longrightarrow> px' ! nat i = v"
    by blast
  have 1: "apply_writes (a # ws) px = Some px'" using s r(1) a by simp
  have 2: "length px' = length px" using r(2) by simp
  have 3: "px' ! i = px ! i" if "int i \<notin> fst ` set (a # ws)" for i
  proof -
    have "int i \<notin> fst ` set ws" "int i \<noteq> j" using that a by auto
    then have "px' ! i = ?p ! i" "i \<noteq> nat j" using r(3) j by auto
    then show ?thesis by simp
  qed
  have 4: "px' ! nat i = w"
    if m: "(i, w) \<in> set (a # ws)" and f: "\<forall>v'. (i, v') \<in> set (a # ws) \<longrightarrow> v' = w" for i w
  proof (cases "(i, w) \<in> set ws")
    case True
    moreover have "\<forall>v'. (i, v') \<in> set ws \<longrightarrow> v' = w" using f by simp
    ultimately show ?thesis using r(4) by blast
  next
    case False
    then have e: "i = j" "w = v" using m a by auto
    have "j \<notin> fst ` set ws"
    proof
      assume "j \<in> fst ` set ws"
      then obtain v' where "(j, v') \<in> set ws" by auto
      then show False using f e False by auto
    qed
    then have "int (nat j) \<notin> fst ` set ws" using j by simp
    then have "px' ! nat j = ?p ! nat j" using r(3) by blast
    then show ?thesis using e j by simp
  qed
  show ?case using 1 2 3 4 by blast
qed

lemma upto_step: "i \<le> j \<Longrightarrow> [i..j] = i # [i + 1..j]"
  by (rule upto_rec1)





lemma int_divmod_eq:
  fixes n q r q' r' :: int
  assumes "0 \<le> r" "r < n" "0 \<le> r'" "r' < n" "q * n + r = q' * n + r'"
  shows "q = q'" "r = r'"
proof -
  have "(q * n + r) div n = q" "(q' * n + r') div n = q'"
    using assms(1-4) by (simp_all only: int_divmod_unique)
  then show "q = q'" using assms(5) by simp
  then show "r = r'" using assms(5) by simp
qed

lemma grid_index_bound:
  fixes w h x y :: int
  assumes "0 \<le> x" "x < w" "0 \<le> y" "y < h"
  shows "0 \<le> y * w + x" "y * w + x < h * w"
proof -
  have w: "0 < w" using assms by simp
  show "0 \<le> y * w + x" using assms w by simp
  have "y + 1 \<le> h" using assms by simp
  then have "(y + 1) * w \<le> h * w" using w by (simp add: mult_right_mono)
  then show "y * w + x < h * w" using assms by (simp add: algebra_simps)
qed





text \<open>
  Outside the range of \<open>int\<close> the value wraps. The offset of the last pixel of an image
  of 7680 by 4320 pixels with 66 channels, computed as the two functions compute the
  offset of a tile's first pixel, is negative.
\<close>

lemma int32_wraps: "int32 (INT_MAX + 1) = INT_MIN"
  by (simp add: int32_def INT_MAX_def INT_MIN_def)

lemma tile_offset_wraps_example:
  "int32 (66 * int32 (int32 (4319 * 7680) + 7679)) = - 2105245762"
  by (simp add: int32_def)








subsection \<open>The write-back of unmap\_neighboring\_tiles\<close>

lemma ex_tile_from_create_task: "tiles (create_task ex_task) ! 1 = ex_center"
  by (simp add: create_task_def Let_def divide_up_def ex_task_def ex_image_def ex_layer_def
      ex_center_def create_tiles_y.simps create_tiles_x.simps new_tile_def)



subsection \<open>map\_neighboring\_tiles: seeding and geometry\<close>













subsection \<open>The box blur of load\_input\_pixels\<close>

lemma length_window: "(lo::int) \<le> hi \<Longrightarrow> int (length [lo..hi - 1]) = hi - lo"
  by simp

lemma blur_sum_h_eq:
  assumes "dx \<le> hi"
    and "\<forall>d \<in> {dx..hi - 1}. 0 \<le> data + 15 * (y * w + d) \<and> data + 15 * (y * w + d) < int (length buf)"
  shows "blur_sum_h ops buf data w y hi dx n sm =
     Some (n + (hi - dx),
       foldl (fadd ops) sm (map (\<lambda>d. buf ! nat (data + INPUT_NUM_CHANNELS * (y * w + d))) [dx..hi - 1]))"
  using assms
proof (induction ops buf data w y hi dx n sm rule: blur_sum_h.induct)
  case (1 ops buf data w y hi dx n sm)
  show ?case
  proof (cases "dx < hi")
    case True
    have g: "array_get buf (data + INPUT_NUM_CHANNELS * (y * w + dx)) =
        Some (buf ! nat (data + INPUT_NUM_CHANNELS * (y * w + dx)))"
      using True "1.prems" by (simp add: array_get_def INPUT_NUM_CHANNELS_def)
    have u: "[dx..hi - 1] = dx # [dx + 1..hi - 1]" using True by (simp add: upto_rec1)
    have ih: "blur_sum_h ops buf data w y hi (dx + 1) (n + 1)
          (fadd ops sm (buf ! nat (data + INPUT_NUM_CHANNELS * (y * w + dx)))) =
        Some (n + 1 + (hi - (dx + 1)),
          foldl (fadd ops) (fadd ops sm (buf ! nat (data + INPUT_NUM_CHANNELS * (y * w + dx))))
            (map (\<lambda>d. buf ! nat (data + INPUT_NUM_CHANNELS * (y * w + d))) [dx + 1..hi - 1]))"
      using "1.IH"[OF True g] True "1.prems" by simp
    show ?thesis
      apply (subst blur_sum_h.simps)
      using True g ih unfolding u by simp
  next
    case False
    then have "dx = hi" "[dx..hi - 1] = []" using "1.prems" by simp_all
    then show ?thesis by (subst blur_sum_h.simps) simp
  qed
qed

lemma blur_sum_v_eq:
  assumes "dy \<le> hi"
    and "\<forall>d \<in> {dy..hi - 1}. 0 \<le> d * w + x \<and> d * w + x < int (length temp)"
  shows "blur_sum_v ops temp w x hi dy n sm =
     Some (n + (hi - dy), foldl (fadd ops) sm (map (\<lambda>d. temp ! nat (d * w + x)) [dy..hi - 1]))"
  using assms
proof (induction ops temp w x hi dy n sm rule: blur_sum_v.induct)
  case (1 ops temp w x hi dy n sm)
  show ?case
  proof (cases "dy < hi")
    case True
    have g: "array_get temp (dy * w + x) = Some (temp ! nat (dy * w + x))"
      using True "1.prems" by (simp add: array_get_def)
    have u: "[dy..hi - 1] = dy # [dy + 1..hi - 1]" using True by (simp add: upto_rec1)
    have ih: "blur_sum_v ops temp w x hi (dy + 1) (n + 1) (fadd ops sm (temp ! nat (dy * w + x))) =
        Some (n + 1 + (hi - (dy + 1)),
          foldl (fadd ops) (fadd ops sm (temp ! nat (dy * w + x)))
            (map (\<lambda>d. temp ! nat (d * w + x)) [dy + 1..hi - 1]))"
      using "1.IH"[OF True g] True "1.prems" by simp
    show ?thesis
      apply (subst blur_sum_v.simps)
      using True g ih unfolding u by simp
  next
    case False
    then have "dy = hi" "[dy..hi - 1] = []" using "1.prems" by simp_all
    then show ?thesis by (subst blur_sum_v.simps) simp
  qed
qed

lemma blur_window_h:
  fixes r x w :: int
  assumes "0 \<le> r" "0 \<le> x" "x < w"
  shows "max (x - r) 0 \<le> x" "x < min (x + r + 1) w" "0 \<le> max (x - r) 0" "min (x + r + 1) w \<le> w"
  using assms by linarith+

lemma blur_h_x_eq:
  assumes "0 \<le> r" "0 \<le> x"
    and "\<forall>d \<in> {0..w - 1}. 0 \<le> data + 15 * (y * w + d) \<and> data + 15 * (y * w + d) < int (length buf)"
  shows "blur_h_x ops buf data r w y x temp =
     apply_writes (map (\<lambda>x'. (y * w + x',
        window_mean ops (\<lambda>d. buf ! nat (data + INPUT_NUM_CHANNELS * (y * w + d)))
          (max (x' - r) 0) (min (x' + r + 1) w))) [x..w - 1]) temp"
  using assms
proof (induction ops buf data r w y x temp rule: blur_h_x.induct)
  case (1 ops buf data r w y x temp)
  let ?f = "\<lambda>d. buf ! nat (data + INPUT_NUM_CHANNELS * (y * w + d))"
  let ?lo = "max (x - r) 0" and ?hi = "min (x + r + 1) w"
  show ?case
  proof (cases "x < w")
    case True
    note b = blur_window_h[OF "1.prems"(1,2) True]
    have lh: "?lo \<le> ?hi" using b by linarith
    have rd: "\<forall>d \<in> {?lo..?hi - 1}. 0 \<le> data + 15 * (y * w + d) \<and> data + 15 * (y * w + d) < int (length buf)"
      using "1.prems"(3) b by auto
    have s: "blur_sum_h ops buf data w y ?hi ?lo 0 (fzero ops) =
        Some (?hi - ?lo, foldl (fadd ops) (fzero ops) (map ?f [?lo..?hi - 1]))"
      using blur_sum_h_eq[OF lh rd, of ops 0 "fzero ops"] by simp
    have v: "fdiv ops (foldl (fadd ops) (fzero ops) (map ?f [?lo..?hi - 1])) (?hi - ?lo) =
        window_mean ops ?f ?lo ?hi"
      unfolding window_mean_def length_window[OF lh] ..
    have u: "[x..w - 1] = x # [x + 1..w - 1]" using True by (simp add: upto_rec1)
    have ih: "blur_h_x ops buf data r w y (x + 1) temp' =
        apply_writes (map (\<lambda>x'. (y * w + x', window_mean ops ?f (max (x' - r) 0) (min (x' + r + 1) w)))
          [x + 1..w - 1]) temp'"
      if "array_set temp (y * w + x) (window_mean ops ?f ?lo ?hi) = Some temp'" for temp'
      using "1.IH"[OF True s refl, of temp'] that "1.prems" unfolding v by simp
    show ?thesis
      apply (subst blur_h_x.simps)
      using True ih unfolding u s
      by (auto simp: v split: Option.bind_splits)
  next
    case False
    then have "[x..w - 1] = []" by simp
    then show ?thesis using False by (subst blur_h_x.simps) simp
  qed
qed

lemma blur_h_y_eq:
  assumes "0 \<le> r"
    and "\<forall>y' \<in> {y..h - 1}. \<forall>d \<in> {0..w - 1}.
           0 \<le> data + 15 * (y' * w + d) \<and> data + 15 * (y' * w + d) < int (length buf)"
  shows "blur_h_y ops buf data r w h y temp =
     apply_writes (concat (map (\<lambda>y'. map (\<lambda>x'. (y' * w + x',
        window_mean ops (\<lambda>d. buf ! nat (data + INPUT_NUM_CHANNELS * (y' * w + d)))
          (max (x' - r) 0) (min (x' + r + 1) w))) [0..w - 1]) [y..h - 1])) temp"
  using assms
proof (induction ops buf data r w h y temp rule: blur_h_y.induct)
  case (1 ops buf data r w h y temp)
  show ?case
  proof (cases "y < h")
    case True
    have rd: "\<forall>d \<in> {0..w - 1}. 0 \<le> data + 15 * (y * w + d) \<and> data + 15 * (y * w + d) < int (length buf)"
      using "1.prems"(2) True by simp
    note inner = blur_h_x_eq[OF "1.prems"(1) order_refl rd, of ops temp]
    have u: "[y..h - 1] = y # [y + 1..h - 1]" using True by (simp add: upto_rec1)
    have rd': "\<forall>y' \<in> {y + 1..h - 1}. \<forall>d \<in> {0..w - 1}.
           0 \<le> data + 15 * (y' * w + d) \<and> data + 15 * (y' * w + d) < int (length buf)"
      using "1.prems"(2) by simp
    note ih = "1.IH"[OF True _ "1.prems"(1) rd']
    show ?thesis
      apply (subst blur_h_y.simps)
      using True ih unfolding u inner
      by (auto simp: apply_writes_append split: Option.bind_splits)
  next
    case False
    then have "[y..h - 1] = []" by simp
    then show ?thesis using False by (subst blur_h_y.simps) simp
  qed
qed

lemma blur_v_x_eq:
  assumes "0 \<le> r" "0 \<le> y" "y < h"
    and "\<forall>d \<in> {0..h - 1}. \<forall>x' \<in> {x..w - 1}. 0 \<le> d * w + x' \<and> d * w + x' < int (length temp)"
  shows "blur_v_x ops temp data r w h y x buf =
     apply_writes (map (\<lambda>x'. (data + INPUT_NUM_CHANNELS * (y * w + x'),
        window_mean ops (\<lambda>d. temp ! nat (d * w + x')) (max (y - r) 0) (min (y + r + 1) h)))
          [x..w - 1]) buf"
  using assms
proof (induction ops temp data r w h y x buf rule: blur_v_x.induct)
  case (1 ops temp data r w h y x buf)
  let ?f = "\<lambda>x' d. temp ! nat (d * w + x')"
  let ?lo = "max (y - r) 0" and ?hi = "min (y + r + 1) h"
  show ?case
  proof (cases "x < w")
    case True
    note b = blur_window_h[OF "1.prems"(1,2,3)]
    have lh: "?lo \<le> ?hi" using b by linarith
    have rd: "\<forall>d \<in> {?lo..?hi - 1}. 0 \<le> d * w + x \<and> d * w + x < int (length temp)"
      using "1.prems"(4) b True by auto
    have s: "blur_sum_v ops temp w x ?hi ?lo 0 (fzero ops) =
        Some (?hi - ?lo, foldl (fadd ops) (fzero ops) (map (?f x) [?lo..?hi - 1]))"
      using blur_sum_v_eq[OF lh rd, of ops 0 "fzero ops"] by simp
    have v: "fdiv ops (foldl (fadd ops) (fzero ops) (map (?f x) [?lo..?hi - 1])) (?hi - ?lo) =
        window_mean ops (?f x) ?lo ?hi"
      unfolding window_mean_def length_window[OF lh] ..
    have u: "[x..w - 1] = x # [x + 1..w - 1]" using True by (simp add: upto_rec1)
    have rd': "\<forall>d \<in> {0..h - 1}. \<forall>x' \<in> {x + 1..w - 1}. 0 \<le> d * w + x' \<and> d * w + x' < int (length temp)"
      using "1.prems"(4) by simp
    have ih: "blur_v_x ops temp data r w h y (x + 1) buf' =
        apply_writes (map (\<lambda>x'. (data + INPUT_NUM_CHANNELS * (y * w + x'),
            window_mean ops (?f x') ?lo ?hi)) [x + 1..w - 1]) buf'"
      if "array_set buf (data + INPUT_NUM_CHANNELS * (y * w + x)) (window_mean ops (?f x) ?lo ?hi) = Some buf'"
      for buf'
      using "1.IH"[OF True s refl, of buf'] that "1.prems"(1,2,3) rd' unfolding v by simp
    show ?thesis
      apply (subst blur_v_x.simps)
      using True ih unfolding u s
      by (auto simp: v split: Option.bind_splits)
  next
    case False
    then have "[x..w - 1] = []" by simp
    then show ?thesis using False by (subst blur_v_x.simps) simp
  qed
qed

lemma blur_v_y_eq:
  assumes "0 \<le> r" "0 \<le> y"
    and "\<forall>d \<in> {0..h - 1}. \<forall>x' \<in> {0..w - 1}. 0 \<le> d * w + x' \<and> d * w + x' < int (length temp)"
  shows "blur_v_y ops temp data r w h y buf =
     apply_writes (concat (map (\<lambda>y'. map (\<lambda>x'. (data + INPUT_NUM_CHANNELS * (y' * w + x'),
        window_mean ops (\<lambda>d. temp ! nat (d * w + x')) (max (y' - r) 0) (min (y' + r + 1) h)))
          [0..w - 1]) [y..h - 1])) buf"
  using assms
proof (induction ops temp data r w h y buf rule: blur_v_y.induct)
  case (1 ops temp data r w h y buf)
  show ?case
  proof (cases "y < h")
    case True
    note inner = blur_v_x_eq[OF "1.prems"(1,2) True "1.prems"(3), of ops data buf]
    have u: "[y..h - 1] = y # [y + 1..h - 1]" using True by (simp add: upto_rec1)
    have y1: "0 \<le> y + 1" using "1.prems"(2) by simp
    note ih = "1.IH"[OF True _ "1.prems"(1) y1 "1.prems"(3)]
    show ?thesis
      apply (subst blur_v_y.simps)
      using True ih unfolding u inner
      by (auto simp: apply_writes_append split: Option.bind_splits)
  next
    case False
    then have "[y..h - 1] = []" by simp
    then show ?thesis using False by (subst blur_v_y.simps) simp
  qed
qed

lemma grid_writes_effect:
  fixes w h :: int and idx :: "int \<Rightarrow> int \<Rightarrow> int"
  assumes rng: "\<And>y x. 0 \<le> y \<Longrightarrow> y < h \<Longrightarrow> 0 \<le> x \<Longrightarrow> x < w \<Longrightarrow>
        0 \<le> idx y x \<and> idx y x < int (length px)"
    and inj: "\<And>y x y' x'. 0 \<le> x \<Longrightarrow> x < w \<Longrightarrow> 0 \<le> x' \<Longrightarrow> x' < w \<Longrightarrow>
        idx y x = idx y' x' \<Longrightarrow> y = y' \<and> x = x'"
  shows "\<exists>px'. apply_writes (concat (map (\<lambda>y. map (\<lambda>x. (idx y x, val y x)) [0..w - 1]) [0..h - 1])) px = Some px' \<and>
     length px' = length px \<and>
     (\<forall>x y. 0 \<le> x \<and> x < w \<and> 0 \<le> y \<and> y < h \<longrightarrow> px' ! nat (idx y x) = val y x) \<and>
     (\<forall>j. \<not> (\<exists>x y. 0 \<le> x \<and> x < w \<and> 0 \<le> y \<and> y < h \<and> int j = idx y x) \<longrightarrow> px' ! j = px ! j)"
proof -
  define ws where "ws = concat (map (\<lambda>y. map (\<lambda>x. (idx y x, val y x)) [0..w - 1]) [0..h - 1])"
  have set_ws: "set ws = (\<Union>y\<in>{0..h - 1}. (\<lambda>x. (idx y x, val y x)) ` {0..w - 1})"
    unfolding ws_def by simp
  have memE: "\<exists>y x. 0 \<le> y \<and> y < h \<and> 0 \<le> x \<and> x < w \<and> j = idx y x \<and> v = val y x"
    if "(j, v) \<in> set ws" for j v
  proof -
    from that obtain y x where "y \<in> {0..h - 1}" "x \<in> {0..w - 1}" "j = idx y x" "v = val y x"
      unfolding set_ws by auto
    then have "0 \<le> y \<and> y < h \<and> 0 \<le> x \<and> x < w \<and> j = idx y x \<and> v = val y x" by simp
    then show ?thesis by blast
  qed
  have memI: "(idx y x, val y x) \<in> set ws" if "0 \<le> y" "y < h" "0 \<le> x" "x < w" for y x
  proof -
    have "y \<in> {0..h - 1}" "x \<in> {0..w - 1}" using that by simp_all
    then show ?thesis unfolding set_ws by blast
  qed
  have inrange: "\<forall>(j, v) \<in> set ws. 0 \<le> j \<and> j < int (length px)"
  proof (clarify)
    fix j v
    assume "(j, v) \<in> set ws"
    from memE[OF this] obtain y x where "0 \<le> y" "y < h" "0 \<le> x" "x < w" "j = idx y x" by blast
    then show "0 \<le> j \<and> j < int (length px)" using rng by simp
  qed
  from apply_writes_effect[OF inrange] obtain px' where
    r: "apply_writes ws px = Some px'" "length px' = length px"
      "\<forall>j. int j \<notin> fst ` set ws \<longrightarrow> px' ! j = px ! j"
      "\<forall>j v. (j, v) \<in> set ws \<and> (\<forall>v'. (j, v') \<in> set ws \<longrightarrow> v' = v) \<longrightarrow> px' ! nat j = v"
    by blast
  have eff: "px' ! nat (idx y x) = val y x" if "0 \<le> x" "x < w" "0 \<le> y" "y < h" for x y
  proof -
    have m: "(idx y x, val y x) \<in> set ws" using memI that by simp
    have "v' = val y x" if "(idx y x, v') \<in> set ws" for v'
    proof -
      from memE[OF that] obtain y' x' where
        p: "idx y x = idx y' x'" "v' = val y' x'" "0 \<le> x'" "x' < w" by blast
      from inj[OF \<open>0 \<le> x\<close> \<open>x < w\<close> p(3,4) p(1)] show ?thesis using p(2) by simp
    qed
    with m r(4) show ?thesis by blast
  qed
  have frame: "px' ! j = px ! j"
    if "\<not> (\<exists>x y. 0 \<le> x \<and> x < w \<and> 0 \<le> y \<and> y < h \<and> int j = idx y x)" for j
  proof -
    have "int j \<notin> fst ` set ws"
    proof
      assume "int j \<in> fst ` set ws"
      then obtain v where "(int j, v) \<in> set ws" by auto
      from memE[OF this] that show False by blast
    qed
    then show ?thesis using r(3) by blast
  qed
  show ?thesis unfolding ws_def[symmetric] using r(1,2) eff frame by blast
qed

lemma box_blur_effect:
  fixes w h radius buffer_data :: int
  assumes "0 \<le> radius" "0 \<le> w" "0 \<le> h" "0 \<le> buffer_data"
    and "buffer_data + w * h * 15 \<le> int (length buf)"
  shows "\<exists>temp buf'.
     blur_h_y ops buf (buffer_data + 14) (5 * radius) w h 0 (replicate (nat (w * h)) fresh) = Some temp \<and>
     box_blur ops radius w h buffer_data fresh buf = Some buf' \<and>
     length temp = nat (w * h) \<and> length buf' = length buf \<and>
     (\<forall>x y. 0 \<le> x \<and> x < w \<and> 0 \<le> y \<and> y < h \<longrightarrow>
        temp ! nat (y * w + x) =
          window_mean ops (\<lambda>dx. buf ! nat (buffer_data + 14 + 15 * (y * w + dx)))
            (max (x - 5 * radius) 0) (min (x + 5 * radius + 1) w)) \<and>
     (\<forall>x y. 0 \<le> x \<and> x < w \<and> 0 \<le> y \<and> y < h \<longrightarrow>
        buf' ! nat (buffer_data + 14 + 15 * (y * w + x)) =
          window_mean ops (\<lambda>dy. temp ! nat (dy * w + x))
            (max (y - 5 * radius) 0) (min (y + 5 * radius + 1) h)) \<and>
     (\<forall>j. \<not> (\<exists>x y. 0 \<le> x \<and> x < w \<and> 0 \<le> y \<and> y < h \<and> int j = buffer_data + 14 + 15 * (y * w + x)) \<longrightarrow>
        buf' ! j = buf ! j)"
proof -
  define r where "r = 5 * radius"
  define data where "data = buffer_data + 14"
  define temp0 where "temp0 = replicate (nat (w * h)) fresh"
  have r0: "0 \<le> r" using assms(1) by (simp add: r_def)
  have l0: "int (length temp0) = h * w" using assms(2,3) by (simp add: temp0_def mult.commute)
  have cell: "0 \<le> y * w + x \<and> y * w + x < h * w" if "0 \<le> y" "y < h" "0 \<le> x" "x < w" for y x
    using grid_index_bound[OF that(3,4,1,2)] by simp
  have cell_inj: "y = y' \<and> x = x'"
    if "0 \<le> x" "x < w" "0 \<le> x'" "x' < w" "y * w + x = y' * w + x'" for y x y' x'
    using int_divmod_eq[OF that] by simp
  have slab: "0 \<le> data + 15 * (y * w + x) \<and> data + 15 * (y * w + x) < int (length buf)"
    if "0 \<le> y" "y < h" "0 \<le> x" "x < w" for y x
    using cell[OF that] assms(4,5) by (simp add: data_def algebra_simps)
  have rdH: "\<forall>y' \<in> {0..h - 1}. \<forall>d \<in> {0..w - 1}.
      0 \<le> data + 15 * (y' * w + d) \<and> data + 15 * (y' * w + d) < int (length buf)"
    using slab by simp
  note eqH = blur_h_y_eq[OF r0 rdH, of ops temp0]
  have cell': "0 \<le> y * w + x \<and> y * w + x < int (length temp0)"
    if "0 \<le> y" "y < h" "0 \<le> x" "x < w" for y x
    using cell[OF that] l0 by simp
  have gH: "\<exists>px'. apply_writes (concat (map (\<lambda>y. map (\<lambda>x. (y * w + x,
        window_mean ops (\<lambda>d. buf ! nat (data + INPUT_NUM_CHANNELS * (y * w + d)))
          (max (x - r) 0) (min (x + r + 1) w))) [0..w - 1]) [0..h - 1])) temp0 = Some px' \<and>
     length px' = length temp0 \<and>
     (\<forall>x y. 0 \<le> x \<and> x < w \<and> 0 \<le> y \<and> y < h \<longrightarrow> px' ! nat (y * w + x) =
        window_mean ops (\<lambda>d. buf ! nat (data + INPUT_NUM_CHANNELS * (y * w + d)))
          (max (x - r) 0) (min (x + r + 1) w)) \<and>
     (\<forall>j. \<not> (\<exists>x y. 0 \<le> x \<and> x < w \<and> 0 \<le> y \<and> y < h \<and> int j = y * w + x) \<longrightarrow> px' ! j = temp0 ! j)"
    by (rule grid_writes_effect[where idx = "\<lambda>y x. y * w + x"]) (fact cell' cell_inj)+
  then obtain temp where
    h1: "blur_h_y ops buf data r w h 0 temp0 = Some temp" and h2: "length temp = length temp0"
    and h3: "\<forall>x y. 0 \<le> x \<and> x < w \<and> 0 \<le> y \<and> y < h \<longrightarrow> temp ! nat (y * w + x) =
        window_mean ops (\<lambda>d. buf ! nat (data + INPUT_NUM_CHANNELS * (y * w + d)))
          (max (x - r) 0) (min (x + r + 1) w)"
    unfolding eqH by blast
  have lt: "int (length temp) = h * w" using h2 l0 by simp
  have rdV: "\<forall>d \<in> {0..h - 1}. \<forall>x' \<in> {0..w - 1}. 0 \<le> d * w + x' \<and> d * w + x' < int (length temp)"
    using cell lt by simp
  note eqV = blur_v_y_eq[OF r0 order_refl rdV, of ops data buf]
  have slab_inj: "y = y' \<and> x = x'"
    if "0 \<le> x" "x < w" "0 \<le> x'" "x' < w"
      "data + INPUT_NUM_CHANNELS * (y * w + x) = data + INPUT_NUM_CHANNELS * (y' * w + x')" for y x y' x'
  proof -
    have "y * w + x = y' * w + x'" using that(5) by (simp add: INPUT_NUM_CHANNELS_def)
    from cell_inj[OF that(1-4) this] show ?thesis .
  qed
  have slab': "0 \<le> data + INPUT_NUM_CHANNELS * (y * w + x) \<and>
      data + INPUT_NUM_CHANNELS * (y * w + x) < int (length buf)"
    if "0 \<le> y" "y < h" "0 \<le> x" "x < w" for y x
    using slab[OF that] by (simp add: INPUT_NUM_CHANNELS_def)
  have gV: "\<exists>px'. apply_writes (concat (map (\<lambda>y. map (\<lambda>x. (data + INPUT_NUM_CHANNELS * (y * w + x),
        window_mean ops (\<lambda>d. temp ! nat (d * w + x)) (max (y - r) 0) (min (y + r + 1) h)))
          [0..w - 1]) [0..h - 1])) buf = Some px' \<and>
     length px' = length buf \<and>
     (\<forall>x y. 0 \<le> x \<and> x < w \<and> 0 \<le> y \<and> y < h \<longrightarrow> px' ! nat (data + INPUT_NUM_CHANNELS * (y * w + x)) =
        window_mean ops (\<lambda>d. temp ! nat (d * w + x)) (max (y - r) 0) (min (y + r + 1) h)) \<and>
     (\<forall>j. \<not> (\<exists>x y. 0 \<le> x \<and> x < w \<and> 0 \<le> y \<and> y < h \<and>
          int j = data + INPUT_NUM_CHANNELS * (y * w + x)) \<longrightarrow> px' ! j = buf ! j)"
    by (rule grid_writes_effect[where idx = "\<lambda>y x. data + INPUT_NUM_CHANNELS * (y * w + x)"])
      (fact slab' slab_inj)+
  then obtain buf' where
    v1: "blur_v_y ops temp data r w h 0 buf = Some buf'" and v2: "length buf' = length buf"
    and v3: "\<forall>x y. 0 \<le> x \<and> x < w \<and> 0 \<le> y \<and> y < h \<longrightarrow>
        buf' ! nat (data + INPUT_NUM_CHANNELS * (y * w + x)) =
        window_mean ops (\<lambda>d. temp ! nat (d * w + x)) (max (y - r) 0) (min (y + r + 1) h)"
    and v4: "\<forall>j. \<not> (\<exists>x y. 0 \<le> x \<and> x < w \<and> 0 \<le> y \<and> y < h \<and>
          int j = data + INPUT_NUM_CHANNELS * (y * w + x)) \<longrightarrow> buf' ! j = buf ! j"
    unfolding eqV by blast
  have b: "box_blur ops radius w h buffer_data fresh buf = Some buf'"
    unfolding box_blur_def Let_def using h1 v1 by (simp add: r_def data_def temp0_def)
  have lt': "length temp = nat (w * h)" using h2 by (simp add: temp0_def)
  have h1': "blur_h_y ops buf (buffer_data + 14) (5 * radius) w h 0 (replicate (nat (w * h)) fresh) = Some temp"
    using h1 by (simp add: r_def data_def temp0_def)
  have h3': "\<forall>x y. 0 \<le> x \<and> x < w \<and> 0 \<le> y \<and> y < h \<longrightarrow>
        temp ! nat (y * w + x) =
          window_mean ops (\<lambda>dx. buf ! nat (buffer_data + 14 + 15 * (y * w + dx)))
            (max (x - 5 * radius) 0) (min (x + 5 * radius + 1) w)"
    using h3 by (simp add: r_def data_def INPUT_NUM_CHANNELS_def)
  have v3': "\<forall>x y. 0 \<le> x \<and> x < w \<and> 0 \<le> y \<and> y < h \<longrightarrow>
        buf' ! nat (buffer_data + 14 + 15 * (y * w + x)) =
          window_mean ops (\<lambda>dy. temp ! nat (dy * w + x))
            (max (y - 5 * radius) 0) (min (y + 5 * radius + 1) h)"
    using v3 by (simp add: r_def data_def INPUT_NUM_CHANNELS_def)
  have v4': "\<forall>j. \<not> (\<exists>x y. 0 \<le> x \<and> x < w \<and> 0 \<le> y \<and> y < h \<and> int j = buffer_data + 14 + 15 * (y * w + x)) \<longrightarrow>
        buf' ! j = buf ! j"
    using v4 by (simp add: r_def data_def INPUT_NUM_CHANNELS_def)
  show ?thesis
    using h1' b lt' v2 h3' v3' v4' by blast
qed

text \<open>
  C2, as the code has it. For a slab that lies in the buffer and a radius that is not
  negative, with \<open>r = 5 * radius\<close>: the horizontal pass writes into \<open>temp\<close>, for
  every pixel \<open>(x, y)\<close>, the mean of the intensity (slot 14) over the columns
  \<open>[max(x - r, 0), min(x + r + 1, W))\<close>, the window that includes column \<open>x + r\<close>; the
  vertical pass writes back the mean of \<open>temp\<close> over the rows
  \<open>[max(y - r, 0), min(y + r + 1, H))\<close>; the divisor of each mean is the number of
  samples of its window; and no other float of the buffer changes.
\<close>

theorem box_blur_windows:
  fixes w h radius buffer_data :: int
  assumes "0 \<le> radius" "0 \<le> w" "0 \<le> h" "0 \<le> buffer_data"
    and "buffer_data + w * h * 15 \<le> int (length buf)"
  shows "\<exists>temp buf'.
     blur_h_y ops buf (buffer_data + 14) (5 * radius) w h 0 (replicate (nat (w * h)) fresh) = Some temp \<and>
     box_blur ops radius w h buffer_data fresh buf = Some buf' \<and>
     length temp = nat (w * h) \<and> length buf' = length buf \<and>
     (\<forall>x y. 0 \<le> x \<and> x < w \<and> 0 \<le> y \<and> y < h \<longrightarrow>
        temp ! nat (y * w + x) =
          window_mean ops (\<lambda>dx. buf ! nat (buffer_data + 14 + 15 * (y * w + dx)))
            (max (x - 5 * radius) 0) (min (x + 5 * radius + 1) w)) \<and>
     (\<forall>x y. 0 \<le> x \<and> x < w \<and> 0 \<le> y \<and> y < h \<longrightarrow>
        buf' ! nat (buffer_data + 14 + 15 * (y * w + x)) =
          window_mean ops (\<lambda>dy. temp ! nat (dy * w + x))
            (max (y - 5 * radius) 0) (min (y + 5 * radius + 1) h)) \<and>
     (\<forall>j. \<not> (\<exists>x y. 0 \<le> x \<and> x < w \<and> 0 \<le> y \<and> y < h \<and> int j = buffer_data + 14 + 15 * (y * w + x)) \<longrightarrow>
        buf' ! j = buf ! j)"
  using assms by (rule box_blur_effect)

theorem box_blur_windows_witness:
  "\<exists>temp buf'.
     blur_h_y rat_ops ex_slab 14 5 6 1 0 (replicate 6 0) = Some temp \<and>
     box_blur rat_ops 1 6 1 0 0 ex_slab = Some buf' \<and>
     temp ! 0 = window_mean rat_ops (\<lambda>dx. ex_slab ! nat (14 + 15 * dx)) 0 6 \<and>
     buf' ! 14 = window_mean rat_ops (\<lambda>dy. temp ! nat (dy * 6)) 0 1 \<and>
     window_mean rat_ops (\<lambda>dx. ex_slab ! nat (14 + 15 * dx)) 0 6 = 1"
proof -
  have l: "(0::int) + 6 * 1 * 15 \<le> int (length ex_slab)" by (simp add: ex_slab_def)
  from box_blur_windows[of 1 6 1 0 ex_slab rat_ops 0, OF _ _ _ _ l]
  obtain temp buf' where
    a: "blur_h_y rat_ops ex_slab 14 5 6 1 0 (replicate 6 0) = Some temp"
      "box_blur rat_ops 1 6 1 0 0 ex_slab = Some buf'"
    and t: "\<forall>x y. 0 \<le> x \<and> x < 6 \<and> 0 \<le> y \<and> y < 1 \<longrightarrow>
        temp ! nat (y * 6 + x) =
          window_mean rat_ops (\<lambda>dx. ex_slab ! nat (0 + 14 + 15 * (y * 6 + dx)))
            (max (x - 5 * 1) 0) (min (x + 5 * 1 + 1) 6)"
    and b: "\<forall>x y. 0 \<le> x \<and> x < 6 \<and> 0 \<le> y \<and> y < 1 \<longrightarrow>
        buf' ! nat (0 + 14 + 15 * (y * 6 + x)) =
          window_mean rat_ops (\<lambda>dy. temp ! nat (dy * 6 + x))
            (max (y - 5 * 1) 0) (min (y + 5 * 1 + 1) 1)"
    by simp blast
  have "temp ! 0 = window_mean rat_ops (\<lambda>dx. ex_slab ! nat (14 + 15 * dx)) 0 6"
    using t[rule_format, of 0 0] by simp
  moreover have "buf' ! 14 = window_mean rat_ops (\<lambda>dy. temp ! nat (dy * 6)) 0 1"
    using b[rule_format, of 0 0] by simp
  moreover have "window_mean rat_ops (\<lambda>dx. ex_slab ! nat (14 + 15 * dx)) 0 6 = 1"
    by code_simp
  ultimately show ?thesis using a by blast
qed

text \<open>
  The claim C2 as stated fails: on a row of six pixels with intensities 0, 0, 0, 0, 0, 6
  and \<open>r = 5\<close>, the code writes 1 for pixel 0, the mean over the six columns
  \<open>[0, 6)\<close>, and the mean over the stated window \<open>[0, min(0 + 5, 6))\<close> is 0.
\<close>

theorem box_blur_window_counterexample:
  "blur_h_y rat_ops ex_slab 14 5 6 1 0 (replicate 6 0) = Some [1, 1, 1, 1, 1, 1] \<and>
   spec_blur_h rat_ops ex_slab 14 5 6 0 0 = 0"
  by code_simp

lemma window_mean_single:
  assumes "\<forall>v. fadd ops (fzero ops) v = v" "\<forall>v. fdiv ops v 1 = v"
  shows "window_mean ops f x (x + 1) = f x"
  using assms by (simp add: window_mean_def)

lemma box_blur_radius_zero:
  fixes w h buffer_data :: int
  assumes laws: "\<forall>v. fadd ops (fzero ops) v = v" "\<forall>v. fdiv ops v 1 = v"
    and sz: "0 \<le> w" "0 \<le> h" "0 \<le> buffer_data" "buffer_data + w * h * 15 \<le> int (length buf)"
  shows "box_blur ops 0 w h buffer_data fresh buf = Some buf"
proof -
  from box_blur_effect[OF order_refl sz, of ops fresh]
  obtain temp buf' where
    b: "box_blur ops 0 w h buffer_data fresh buf = Some buf'" and l: "length buf' = length buf"
    and t: "\<forall>x y. 0 \<le> x \<and> x < w \<and> 0 \<le> y \<and> y < h \<longrightarrow>
        temp ! nat (y * w + x) =
          window_mean ops (\<lambda>dx. buf ! nat (buffer_data + 14 + 15 * (y * w + dx)))
            (max (x - 5 * 0) 0) (min (x + 5 * 0 + 1) w)"
    and v: "\<forall>x y. 0 \<le> x \<and> x < w \<and> 0 \<le> y \<and> y < h \<longrightarrow>
        buf' ! nat (buffer_data + 14 + 15 * (y * w + x)) =
          window_mean ops (\<lambda>dy. temp ! nat (dy * w + x))
            (max (y - 5 * 0) 0) (min (y + 5 * 0 + 1) h)"
    and f: "\<forall>j. \<not> (\<exists>x y. 0 \<le> x \<and> x < w \<and> 0 \<le> y \<and> y < h \<and> int j = buffer_data + 14 + 15 * (y * w + x)) \<longrightarrow>
        buf' ! j = buf ! j"
    by blast
  have "buf' ! j = buf ! j" for j
  proof (cases "\<exists>x y. 0 \<le> x \<and> x < w \<and> 0 \<le> y \<and> y < h \<and> int j = buffer_data + 14 + 15 * (y * w + x)")
    case False
    then show ?thesis using f by blast
  next
    case True
    then obtain x y where p: "0 \<le> x" "x < w" "0 \<le> y" "y < h"
      and j: "int j = buffer_data + 14 + 15 * (y * w + x)" by blast
    have wx: "max (x - 5 * 0) 0 = x" "min (x + 5 * 0 + 1) w = x + 1" using p by simp_all
    have wy: "max (y - 5 * 0) 0 = y" "min (y + 5 * 0 + 1) h = y + 1" using p by simp_all
    have "temp ! nat (y * w + x) = buf ! nat (buffer_data + 14 + 15 * (y * w + x))"
      using t[rule_format, of x y] p unfolding wx by (simp add: window_mean_single[OF laws])
    moreover have "buf' ! nat (buffer_data + 14 + 15 * (y * w + x)) = temp ! nat (y * w + x)"
      using v[rule_format, of x y] p unfolding wy by (simp add: window_mean_single[OF laws])
    moreover have "nat (buffer_data + 14 + 15 * (y * w + x)) = j" using j by simp
    ultimately show ?thesis by simp
  qed
  then have "buf' = buf" using l by (simp add: nth_equalityI)
  then show ?thesis using b by simp
qed

lemma preprocess_radius_zero:
  fixes w h :: int
  assumes laws: "\<forall>v. fadd ops (fzero ops) v = v" "\<forall>v. fdiv ops v 1 = v"
    and sz: "0 \<le> w" "0 \<le> h" "num_frames * (w * h * 15) \<le> int (length buf)"
    and k: "0 \<le> neighbor" "buffer_data = neighbor * (w * h * 15)"
  shows "preprocess ops False 0 w h num_frames neighbor buffer_data fresh buf = Some buf"
  using k
proof (induction "nat (num_frames - neighbor)" arbitrary: neighbor buffer_data)
  case 0
  then have "\<not> neighbor < num_frames" by simp
  then show ?case by (subst preprocess.simps) simp
next
  case (Suc n)
  then have lt: "neighbor < num_frames" by simp
  have st: "0 \<le> w * h * 15" using sz by simp
  have b0: "0 \<le> buffer_data" using Suc.prems st by simp
  have "(neighbor + 1) * (w * h * 15) \<le> num_frames * (w * h * 15)"
    using lt st by (intro mult_right_mono) simp_all
  moreover have "(neighbor + 1) * (w * h * 15) = neighbor * (w * h * 15) + w * h * 15"
    by (simp add: distrib_right)
  ultimately have b1: "buffer_data + w * h * 15 \<le> int (length buf)"
    using Suc.prems sz(3) by linarith
  have bb: "box_blur ops 0 w h buffer_data fresh buf = Some buf"
    by (rule box_blur_radius_zero[OF laws sz(1,2) b0 b1])
  have n: "n = nat (num_frames - (neighbor + 1))" using Suc.hyps(2) by simp
  have d: "buffer_data + w * h * INPUT_NUM_CHANNELS = (neighbor + 1) * (w * h * 15)"
    using Suc.prems by (simp add: INPUT_NUM_CHANNELS_def distrib_right)
  have "preprocess ops False 0 w h num_frames (neighbor + 1)
      (buffer_data + w * h * INPUT_NUM_CHANNELS) fresh buf = Some buf"
    using Suc.hyps(1)[OF n _ d] Suc.prems by simp
  then show ?case using lt bb by (subst preprocess.simps) simp
qed

text \<open>
  C7. With \<open>params.radius = 0\<close>, for float operations with \<open>0.0f + v = v\<close> and
  \<open>v / 1 = v\<close>: in every frame slab and for every pixel, the summation loop of either
  pass runs over exactly one sample and returns the count 1, the box blur returns the
  buffer unchanged, and so does the whole preprocessing loop when the clamp is off.
\<close>

theorem box_blur_radius_zero_identity:
  fixes w h num_frames :: int
  assumes "\<forall>v. fadd ops (fzero ops) v = v" "\<forall>v. fdiv ops v 1 = v"
    and "0 \<le> w" "0 \<le> h" "num_frames * (w * h * 15) \<le> int (length buf)"
  shows "(\<forall>s x y. 0 \<le> s \<and> s < num_frames \<and> 0 \<le> x \<and> x < w \<and> 0 \<le> y \<and> y < h \<longrightarrow>
       blur_sum_h ops buf (s * (w * h * 15) + 14) w y (min (x + 5 * 0 + 1) w) (max (x - 5 * 0) 0) 0 (fzero ops) =
         Some (1, fadd ops (fzero ops) (buf ! nat (s * (w * h * 15) + 14 + 15 * (y * w + x)))) \<and>
       (\<forall>temp. length temp = nat (w * h) \<longrightarrow>
          blur_sum_v ops temp w x (min (y + 5 * 0 + 1) h) (max (y - 5 * 0) 0) 0 (fzero ops) =
            Some (1, fadd ops (fzero ops) (temp ! nat (y * w + x))))) \<and>
     (\<forall>s. 0 \<le> s \<and> s < num_frames \<longrightarrow>
        box_blur ops 0 w h (s * (w * h * 15)) fresh buf = Some buf) \<and>
     preprocess ops False 0 w h num_frames 0 0 fresh buf = Some buf"
proof -
  have st: "0 \<le> w * h * 15" using assms(3,4) by simp
  have slab: "0 \<le> s * (w * h * 15) \<and> s * (w * h * 15) + w * h * 15 \<le> int (length buf)"
    if "0 \<le> s" "s < num_frames" for s
  proof -
    define S where "S = w * h * 15"
    have S: "0 \<le> S" using st by (simp add: S_def)
    have "(s + 1) * S \<le> num_frames * S"
      using that S by (intro mult_right_mono) simp_all
    moreover have "(s + 1) * S = s * S + S" by (simp add: distrib_right)
    moreover have "0 \<le> s * S" using that S by simp
    ultimately have "0 \<le> s * S \<and> s * S + S \<le> int (length buf)"
      using assms(5) unfolding S_def by linarith
    then show ?thesis unfolding S_def .
  qed
  have cell: "0 \<le> y * w + x \<and> y * w + x < h * w" if "0 \<le> y" "y < h" "0 \<le> x" "x < w" for y x
    using grid_index_bound[OF that(3,4,1,2)] by simp
  have one_h: "blur_sum_h ops buf (s * (w * h * 15) + 14) w y (min (x + 5 * 0 + 1) w) (max (x - 5 * 0) 0) 0 (fzero ops) =
         Some (1, fadd ops (fzero ops) (buf ! nat (s * (w * h * 15) + 14 + 15 * (y * w + x))))"
    if p: "0 \<le> s" "s < num_frames" "0 \<le> x" "x < w" "0 \<le> y" "y < h" for s x y
  proof -
    have wx: "max (x - 5 * 0) 0 = x" "min (x + 5 * 0 + 1) w = x + 1" using p by simp_all
    have "0 \<le> s * (w * h * 15) + 14 + 15 * (y * w + x) \<and>
        s * (w * h * 15) + 14 + 15 * (y * w + x) < int (length buf)"
      using slab[OF p(1,2)] cell[OF p(5,6,3,4)] by (simp add: algebra_simps)
    then have rd: "\<forall>d \<in> {x..x + 1 - 1}. 0 \<le> s * (w * h * 15) + 14 + 15 * (y * w + d) \<and>
        s * (w * h * 15) + 14 + 15 * (y * w + d) < int (length buf)" by simp
    show ?thesis unfolding wx
      using blur_sum_h_eq[of x "x + 1" "s * (w * h * 15) + 14" y w buf ops 0 "fzero ops", OF _ rd]
      by (simp add: INPUT_NUM_CHANNELS_def)
  qed
  have one_v: "blur_sum_v ops temp w x (min (y + 5 * 0 + 1) h) (max (y - 5 * 0) 0) 0 (fzero ops) =
            Some (1, fadd ops (fzero ops) (temp ! nat (y * w + x)))"
    if p: "0 \<le> x" "x < w" "0 \<le> y" "y < h" and lt: "length temp = nat (w * h)" for x y temp
  proof -
    have wy: "max (y - 5 * 0) 0 = y" "min (y + 5 * 0 + 1) h = y + 1" using p by simp_all
    have "int (length temp) = h * w" using lt assms(3,4) by (simp add: mult.commute)
    then have rd: "\<forall>d \<in> {y..y + 1 - 1}. 0 \<le> d * w + x \<and> d * w + x < int (length temp)"
      using cell[OF p(3,4,1,2)] by simp
    show ?thesis unfolding wy
      using blur_sum_v_eq[of y "y + 1" w x temp ops 0 "fzero ops", OF _ rd] by simp
  qed
  have bb: "box_blur ops 0 w h (s * (w * h * 15)) fresh buf = Some buf"
    if "0 \<le> s" "s < num_frames" for s
    using box_blur_radius_zero[OF assms(1,2,3,4)] slab[OF that] by simp
  have pp: "preprocess ops False 0 w h num_frames 0 0 fresh buf = Some buf"
    by (rule preprocess_radius_zero[OF assms]) simp_all
  show ?thesis using one_h one_v bb pp by blast
qed

theorem box_blur_radius_zero_identity_witness:
  "box_blur rat_ops 0 6 1 0 0 ex_slab = Some ex_slab \<and>
   preprocess rat_ops False 0 6 1 1 0 0 0 ex_slab = Some ex_slab \<and>
   blur_sum_h rat_ops ex_slab 14 6 0 6 5 0 0 = Some (1, 6)"
proof -
  have l: "(1::int) * (6 * 1 * 15) \<le> int (length ex_slab)" by (simp add: ex_slab_def)
  have a: "\<forall>v. fadd rat_ops (fzero rat_ops) v = v" "\<forall>v. fdiv rat_ops v 1 = v"
    by (simp_all add: rat_ops_def)
  note t = box_blur_radius_zero_identity[OF a _ _ l, of 0, simplified]
  have "blur_sum_h rat_ops ex_slab 14 6 0 6 5 0 0 =
      Some (1, fadd rat_ops (fzero rat_ops) (ex_slab ! nat (14 + 15 * 5)))"
    using t[THEN conjunct1, rule_format, of 0 5 0] by (simp add: rat_ops_def)
  moreover have "ex_slab ! nat (14 + 15 * 5) = 6" by code_simp
  moreover have "box_blur rat_ops 0 6 1 0 0 ex_slab = Some ex_slab"
    using t[THEN conjunct2, THEN conjunct1, rule_format, of 0] by simp
  moreover have "preprocess rat_ops False 0 6 1 1 0 0 0 ex_slab = Some ex_slab"
    using t[THEN conjunct2, THEN conjunct2] by simp
  ultimately show ?thesis by (simp add: rat_ops_def)
qed


subsection \<open>parse\_channels and the order of the layers\<close>

lemma std_map_update_keys:
  "set (map fst (std_map_update k f d m)) = insert k (set (map fst m))"
proof (induction m)
  case Nil
  show ?case by simp
next
  case (Cons a m)
  obtain k' v where a: "a = (k', v)" by (cases a)
  have "set (map fst (std_map_update k f d ((k', v) # m))) = insert k (insert k' (set (map fst m)))"
  proof (cases "k = k'")
    case True
    then show ?thesis by simp
  next
    case False
    then show ?thesis using Cons.IH by (cases "k < k'") (simp_all add: insert_commute)
  qed
  then show ?case unfolding a by simp
qed

lemma std_map_update_sorted:
  "sorted_wrt (<) (map fst m) \<Longrightarrow> sorted_wrt (<) (map fst (std_map_update k f d m))"
proof (induction m)
  case Nil
  then show ?case by simp
next
  case (Cons a m)
  obtain k' v where a: "a = (k', v)" by (cases a)
  have s: "sorted_wrt (<) (map fst m)" and lt: "\<forall>x \<in> set (map fst m). k' < x"
    using Cons.prems a by auto
  show ?case
  proof (cases "k = k'")
    case True
    then show ?thesis using Cons.prems a by simp
  next
    case False
    show ?thesis
    proof (cases "k < k'")
      case True
      then show ?thesis using Cons.prems a False by auto
    next
      case g: False
      then have "k' < k" using False by simp
      then have "\<forall>x \<in> set (map fst (std_map_update k f d m)). k' < x"
        using lt unfolding std_map_update_keys by simp
      then show ?thesis using Cons.IH[OF s] a False g by simp
    qed
  qed
qed

lemma std_map_update_values:
  assumes "(k', v') \<in> set (std_map_update k f d m)"
  shows "(k', v') \<in> set m \<or> (k' = k \<and> (v' = f d \<or> (\<exists>v. (k, v) \<in> set m \<and> v' = f v)))"
  using assms by (induction m) (auto split: if_splits)

lemma collect_layers_sorted:
  "sorted_wrt (<) (map fst m) \<Longrightarrow> sorted_wrt (<) (map fst (collect_layers mv cs i m))"
  by (induction cs arbitrary: i m) (auto simp: std_map_update_sorted split: option.splits)

lemma layer_indices_below_update:
  assumes "layer_indices_below i m" "0 \<le> i"
  shows "layer_indices_below (i + 1)
     (std_map_update k (\<lambda>l. l\<lparr>channels := channels l @ [c],
          layer_to_image_channel := layer_to_image_channel l @ [i]\<rparr>) empty_layer m)"
  unfolding layer_indices_below_def
proof (clarify)
  fix k' l'
  assume "(k', l') \<in> set (std_map_update k (\<lambda>l. l\<lparr>channels := channels l @ [c],
          layer_to_image_channel := layer_to_image_channel l @ [i]\<rparr>) empty_layer m)"
  from std_map_update_values[OF this]
  consider "(k', l') \<in> set m"
    | "l' = empty_layer\<lparr>channels := channels empty_layer @ [c],
          layer_to_image_channel := layer_to_image_channel empty_layer @ [i]\<rparr>"
    | v where "(k, v) \<in> set m" "l' = v\<lparr>channels := channels v @ [c],
          layer_to_image_channel := layer_to_image_channel v @ [i]\<rparr>"
    by blast
  then show "length (channels l') = length (layer_to_image_channel l') \<and>
        (\<forall>c \<in> set (layer_to_image_channel l'). 0 \<le> c \<and> c < i + 1)"
  proof cases
    case 1
    then show ?thesis using assms(1) unfolding layer_indices_below_def by fastforce
  next
    case 2
    then show ?thesis using assms(2) by (simp add: empty_layer_def)
  next
    case 3
    then show ?thesis using assms unfolding layer_indices_below_def by fastforce
  qed
qed

lemma layer_indices_below_mono:
  "layer_indices_below i m \<Longrightarrow> i \<le> j \<Longrightarrow> layer_indices_below j m"
  unfolding layer_indices_below_def by fastforce

lemma collect_layers_indices:
  "layer_indices_below i m \<Longrightarrow> 0 \<le> i \<Longrightarrow>
     layer_indices_below (i + int (length cs)) (collect_layers mv cs i m)"
proof (induction cs arbitrary: i m)
  case Nil
  then show ?case by simp
next
  case (Cons c cs)
  let ?m' = "(case parse_channel_name c mv of
          None \<Rightarrow> m
        | Some (layer, pass, channel) \<Rightarrow>
            std_map_update layer
              (\<lambda>l. l\<lparr>channels := channels l @ [pass @ ''.'' @ channel],
                      layer_to_image_channel := layer_to_image_channel l @ [i]\<rparr>)
              empty_layer m)"
  have "layer_indices_below (i + 1) ?m'"
    using Cons.prems layer_indices_below_update layer_indices_below_mono[of i m "i + 1"]
    by (auto split: option.splits)
  from Cons.IH[OF this] Cons.prems(2) show ?case by (simp add: algebra_simps)
qed

lemma find_string_less: "find_string cs nm = Some j \<Longrightarrow> j < length cs"
  by (induction cs arbitrary: j) (auto split: if_splits)

lemma map_channels_table:
  assumes "map_channels ms chans l2i table = Some t" "length chans = length l2i"
  shows "length t = length table \<and>
     (\<forall>j<length t. t ! j \<in> set l2i \<or> (t ! j = table ! j \<and> j \<notin> nat ` fst ` set ms))"
  using assms
proof (induction ms arbitrary: table)
  case Nil
  then show ?case by simp
next
  case (Cons a ms)
  obtain channel nm where a: "a = (channel, nm)" by (cases a)
  from Cons.prems(1) a obtain lc where
    f: "find_string chans nm = Some lc"
    and r: "map_channels ms chans l2i (table[nat channel := l2i ! lc]) = Some t"
    by (auto split: option.splits)
  have lc: "l2i ! lc \<in> set l2i" using find_string_less[OF f] Cons.prems(2) by simp
  from Cons.IH[OF r Cons.prems(2)] have
    ih: "length t = length table"
      "\<forall>j<length t. t ! j \<in> set l2i \<or>
         (t ! j = table[nat channel := l2i ! lc] ! j \<and> j \<notin> nat ` fst ` set ms)"
    by simp_all
  have "t ! j \<in> set l2i \<or> (t ! j = table ! j \<and> j \<notin> nat ` fst ` set (a # ms))"
    if j: "j < length t" for j
  proof (cases "j = nat channel")
    case True
    then show ?thesis using ih(2)[rule_format, OF j] j ih(1) lc by auto
  next
    case False
    then show ?thesis using ih(2)[rule_format, OF j] a by auto
  qed
  then show ?case using ih(1) by blast
qed

lemma input_channels_slot_list: "map (\<lambda>p. nat (fst p)) input_channels = [0..<15]"
  by code_simp

lemma input_channels_slots: "nat ` fst ` set input_channels = {0..<15}"
proof -
  have "nat ` fst ` set input_channels = set (map (\<lambda>p. nat (fst p)) input_channels)"
    by (simp add: image_image)
  then show ?thesis unfolding input_channels_slot_list by simp
qed

lemma output_channels_slot_list: "map (\<lambda>p. nat (fst p)) output_channels = [0..<3]"
  by code_simp

lemma output_channels_slots: "nat ` fst ` set output_channels = {0..<3}"
proof -
  have "nat ` fst ` set output_channels = set (map (\<lambda>p. nat (fst p)) output_channels)"
    by (simp add: image_image)
  then show ?thesis unfolding output_channels_slot_list by simp
qed

lemma detect_denoising_channels_tables:
  assumes "detect_denoising_channels l = Some l1"
    and "length (channels l) = length (layer_to_image_channel l)"
  shows "length (input_to_image_channel l1) = 15 \<and> length (output_to_image_channel l1) = 3 \<and>
     set (input_to_image_channel l1) \<subseteq> set (layer_to_image_channel l) \<and>
     set (output_to_image_channel l1) \<subseteq> set (layer_to_image_channel l)"
proof -
  from assms(1) obtain i2i o2i where
    i: "map_channels input_channels (channels l) (layer_to_image_channel l) (replicate 15 (- 1)) = Some i2i"
    and o: "map_channels output_channels (channels l) (layer_to_image_channel l) (replicate 3 (- 1)) = Some o2i"
    and l1: "l1 = l\<lparr>input_to_image_channel := i2i, output_to_image_channel := o2i\<rparr>"
    by (auto simp: detect_denoising_channels_def INPUT_NUM_CHANNELS_def OUTPUT_NUM_CHANNELS_def
        split: option.splits)
  from map_channels_table[OF i assms(2)] have
    i': "length i2i = 15" "\<forall>j<15. i2i ! j \<in> set (layer_to_image_channel l)"
    by (auto simp: input_channels_slots)
  from map_channels_table[OF o assms(2)] have
    o': "length o2i = 3" "\<forall>j<3. o2i ! j \<in> set (layer_to_image_channel l)"
    by (auto simp: output_channels_slots)
  have "set i2i \<subseteq> set (layer_to_image_channel l)" "set o2i \<subseteq> set (layer_to_image_channel l)"
    using i' o' by (auto simp: in_set_conv_nth)
  then show ?thesis using i'(1) o'(1) l1 by simp
qed

lemma resolve_samples_Inr:
  assumes "resolve_samples spec scan smp nm l1 = Inr l'"
  shows "name l' = nm \<and> input_to_image_channel l' = input_to_image_channel l1 \<and>
     output_to_image_channel l' = output_to_image_channel l1 \<and> 1 \<le> samples l' \<and>
     (1 \<le> smp \<longrightarrow> samples l' = smp) \<and>
     (smp < 1 \<longrightarrow> get_string_attribute spec (''cycles.'' @ nm @ ''.samples'') [] \<noteq> [] \<and>
        scan (get_string_attribute spec (''cycles.'' @ nm @ ''.samples'') []) = ScanInt (samples l'))"
  using assms unfolding resolve_samples_def Let_def
  by (auto split: if_splits scan_result.splits)

lemma resolve_samples_Inl:
  assumes "resolve_samples spec scan smp nm l1 = Inl err"
  shows "smp < 1 \<and>
     (get_string_attribute spec (''cycles.'' @ nm @ ''.samples'') [] = [] \<or>
      (\<forall>v. scan (get_string_attribute spec (''cycles.'' @ nm @ ''.samples'') []) = ScanInt v \<longrightarrow> v < 1)) \<and>
     (err = ''Failed to parse samples metadata: '' @
              get_string_attribute spec (''cycles.'' @ nm @ ''.samples'') [] \<or>
      err = ''No sample number specified in the file for layer '' @ nm @ '' or on the command line'')"
  using assms unfolding resolve_samples_def Let_def
  by (auto split: if_splits scan_result.splits)

lemma resolve_samples_fails:
  assumes "smp < 1"
    and "get_string_attribute spec (''cycles.'' @ nm @ ''.samples'') [] = [] \<or>
      (\<forall>v. scan (get_string_attribute spec (''cycles.'' @ nm @ ''.samples'') []) = ScanInt v \<longrightarrow> v < 1)"
  shows "\<exists>err. resolve_samples spec scan smp nm l1 = Inl err"
  using assms unfolding resolve_samples_def Let_def
  by (auto split: if_splits scan_result.splits)

lemma select_layers_Inr:
  assumes "select_layers spec scan smp m acc = Inr ls"
  shows "map name ls = map name acc @ map fst (filter (\<lambda>(k, l). detect_denoising_channels l \<noteq> None) m) \<and>
     (\<forall>l \<in> set ls. l \<in> set acc \<or>
        (\<exists>k l0 l1. (k, l0) \<in> set m \<and> detect_denoising_channels l0 = Some l1 \<and>
           resolve_samples spec scan smp k l1 = Inr l))"
  using assms
proof (induction m arbitrary: acc)
  case Nil
  then show ?case by simp
next
  case (Cons a m)
  obtain k l0 where a: "a = (k, l0)" by (cases a)
  show ?case
  proof (cases "detect_denoising_channels l0")
    case None
    then have "select_layers spec scan smp m acc = Inr ls" using Cons.prems a by simp
    from Cons.IH[OF this] show ?thesis using None a by auto
  next
    case (Some l1)
    from Cons.prems a Some obtain l2 where
      r: "resolve_samples spec scan smp k l1 = Inr l2"
      and s: "select_layers spec scan smp m (acc @ [l2]) = Inr ls"
      by (auto split: sum.splits)
    have n: "name l2 = k" using resolve_samples_Inr[OF r] by simp
    from Cons.IH[OF s] have
      1: "map name ls = map name (acc @ [l2]) @
           map fst (filter (\<lambda>(k, l). detect_denoising_channels l \<noteq> None) m)"
      and 2: "\<forall>l \<in> set ls. l \<in> set (acc @ [l2]) \<or>
        (\<exists>k l0 l1. (k, l0) \<in> set m \<and> detect_denoising_channels l0 = Some l1 \<and>
           resolve_samples spec scan smp k l1 = Inr l)"
      by simp_all
    have "map name ls = map name acc @
        map fst (filter (\<lambda>(k, l). detect_denoising_channels l \<noteq> None) (a # m))"
      using 1 n a Some by simp
    moreover have "\<forall>l \<in> set ls. l \<in> set acc \<or>
        (\<exists>k l0 l1. (k, l0) \<in> set (a # m) \<and> detect_denoising_channels l0 = Some l1 \<and>
           resolve_samples spec scan smp k l1 = Inr l)"
    proof
      fix l assume "l \<in> set ls"
      with 2 consider "l \<in> set acc" | "l = l2"
        | "\<exists>k l0 l1. (k, l0) \<in> set m \<and> detect_denoising_channels l0 = Some l1 \<and>
           resolve_samples spec scan smp k l1 = Inr l"
        by auto
      then show "l \<in> set acc \<or>
        (\<exists>k l0 l1. (k, l0) \<in> set (a # m) \<and> detect_denoising_channels l0 = Some l1 \<and>
           resolve_samples spec scan smp k l1 = Inr l)"
      proof cases
        case 1
        then show ?thesis by simp
      next
        case 2
        then show ?thesis using r Some a by auto
      next
        case 3
        then show ?thesis by auto
      qed
    qed
    ultimately show ?thesis by simp
  qed
qed

lemma select_layers_Inl:
  assumes "select_layers spec scan smp m acc = Inl err"
  shows "\<exists>k l0 l1. (k, l0) \<in> set m \<and> detect_denoising_channels l0 = Some l1 \<and>
     resolve_samples spec scan smp k l1 = Inl err"
  using assms
proof (induction m arbitrary: acc)
  case Nil
  then show ?case by simp
next
  case (Cons a m)
  obtain k l0 where a: "a = (k, l0)" by (cases a)
  show ?case
  proof (cases "detect_denoising_channels l0")
    case None
    then have "select_layers spec scan smp m acc = Inl err" using Cons.prems a by simp
    from Cons.IH[OF this] show ?thesis by auto
  next
    case (Some l1)
    show ?thesis
    proof (cases "resolve_samples spec scan smp k l1")
      case (Inl e)
      then have "e = err" using Cons.prems a Some by simp
      then show ?thesis using Inl Some a by auto
    next
      case (Inr l2)
      then have "select_layers spec scan smp m (acc @ [l2]) = Inl err"
        using Cons.prems a Some by simp
      from Cons.IH[OF this] show ?thesis by auto
    qed
  qed
qed

lemma select_layers_fails:
  assumes "(k, l0) \<in> set m" "detect_denoising_channels l0 = Some l1"
    and "resolve_samples spec scan smp k l1 = Inl e"
  shows "\<exists>err. select_layers spec scan smp m acc = Inl err"
  using assms(1)
proof (induction m arbitrary: acc)
  case Nil
  then show ?case by simp
next
  case (Cons a m)
  obtain k' l' where a: "a = (k', l')" by (cases a)
  show ?case
  proof (cases "a = (k, l0)")
    case True
    then show ?thesis using assms(2,3) by simp
  next
    case False
    then have i: "(k, l0) \<in> set m" using Cons.prems by simp
    show ?thesis
    proof (cases "detect_denoising_channels l'")
      case None
      then show ?thesis using Cons.IH[OF i] a by simp
    next
      case (Some l1')
      then show ?thesis using Cons.IH[OF i] a
        by (cases "resolve_samples spec scan smp k' l1'") simp_all
    qed
  qed
qed

lemma exec_loop_trace:
  "k \<le> n \<Longrightarrow> exec_loop (\<lambda>l t. Some t) (\<lambda>l t. t @ [f l]) n k acc = Some (acc @ map f [k..<n])"
proof (induction "n - k" arbitrary: k acc)
  case 0
  then have "k = n" by simp
  then show ?case by (subst exec_loop.simps) simp
next
  case (Suc d)
  then have lt: "k < n" by simp
  have "exec_loop (\<lambda>l t. Some t) (\<lambda>l t. t @ [f l]) n (k + 1) (acc @ [f k]) =
      Some ((acc @ [f k]) @ map f [k + 1..<n])"
    using Suc.hyps(1)[of "k + 1" "acc @ [f k]"] Suc.hyps(2) lt by simp
  then show ?case using lt by (subst exec_loop.simps) (simp add: upt_conv_Cons)
qed

lemma file_layers_sorted: "sorted_wrt (<) (map fst (file_layers spec))"
  unfolding file_layers_def by (rule collect_layers_sorted) simp

lemma file_layers_indices:
  "layer_indices_below (int (length (channelnames spec))) (file_layers spec)"
  unfolding file_layers_def
  using collect_layers_indices[of 0 "[]" "channelnames spec" "multiview_channels spec"]
  by (simp add: layer_indices_below_def)

text \<open>
  C3, as the code has it. The layers that \<open>parse_channels\<close> retains are produced in
  strictly ascending order of their layer keys (byte-wise lexicographic, the iteration
  order of the \<open>std::map\<close> that groups the channels), and \<open>exec\<close> visits them in
  that order, from index 0 upwards.
\<close>

theorem parse_channels_layer_order:
  assumes "parse_channels spec scan smp = Inr ls"
  shows "sorted_wrt (<) (map name ls) \<and>
     exec_loop (\<lambda>l t. Some t) (\<lambda>l t. t @ [name (ls ! l)]) (length ls) 0 [] = Some (map name ls)"
proof -
  from select_layers_Inr[OF assms[unfolded parse_channels_def]]
  have n: "map name ls =
      map fst (filter (\<lambda>(k, l). detect_denoising_channels l \<noteq> None) (file_layers spec))"
    by simp
  have "sorted_wrt (<) (map fst (filter (\<lambda>(k, l). detect_denoising_channels l \<noteq> None) (file_layers spec)))"
    using file_layers_sorted[of spec] by (simp add: sorted_wrt_map sorted_wrt_filter)
  then have 1: "sorted_wrt (<) (map name ls)" using n by simp
  have "map (\<lambda>l. name (ls ! l)) [0..<length ls] = map name ls"
    by (rule nth_equalityI) simp_all
  then have 2: "exec_loop (\<lambda>l t. Some t) (\<lambda>l t. t @ [name (ls ! l)]) (length ls) 0 [] = Some (map name ls)"
    using exec_loop_trace[of 0 "length ls" "\<lambda>l. name (ls ! l)" "[]"] by simp
  from 1 2 show ?thesis by simp
qed

text \<open>
  C8. When \<open>parse_channels\<close> succeeds, no layer that passed the channel detection was
  dropped, and each layer's samples are at least 1: the task-level override when that is
  positive, and otherwise the integer read from the non-empty attribute
  \<open>cycles.<layer>.samples\<close>. When the override is not positive and a layer that passed
  the detection has no such attribute, or none from which an integer of at least 1 is
  read, \<open>parse_channels\<close> fails; and every failure carries one of the two messages,
  naming the unparsable string or the layer.
\<close>

theorem parse_channels_samples:
  "(\<forall>ls. parse_channels spec scan smp = Inr ls \<longrightarrow>
      map name ls =
        map fst (filter (\<lambda>(k, l). detect_denoising_channels l \<noteq> None) (file_layers spec)) \<and>
      (\<forall>l \<in> set ls. 1 \<le> samples l \<and> (1 \<le> smp \<longrightarrow> samples l = smp) \<and>
         (smp < 1 \<longrightarrow>
            get_string_attribute spec (''cycles.'' @ name l @ ''.samples'') [] \<noteq> [] \<and>
            scan (get_string_attribute spec (''cycles.'' @ name l @ ''.samples'') []) =
              ScanInt (samples l)))) \<and>
   (\<forall>k l. (k, l) \<in> set (file_layers spec) \<and> detect_denoising_channels l \<noteq> None \<and> smp < 1 \<and>
      (get_string_attribute spec (''cycles.'' @ k @ ''.samples'') [] = [] \<or>
       (\<forall>v. scan (get_string_attribute spec (''cycles.'' @ k @ ''.samples'') []) = ScanInt v \<longrightarrow> v < 1)) \<longrightarrow>
      (\<exists>err. parse_channels spec scan smp = Inl err)) \<and>
   (\<forall>err. parse_channels spec scan smp = Inl err \<longrightarrow>
      (\<exists>k l. (k, l) \<in> set (file_layers spec) \<and> detect_denoising_channels l \<noteq> None \<and> smp < 1 \<and>
         (err = ''Failed to parse samples metadata: '' @
                  get_string_attribute spec (''cycles.'' @ k @ ''.samples'') [] \<or>
          err = ''No sample number specified in the file for layer '' @ k @
                  '' or on the command line'')))"
proof (intro conjI allI impI)
  fix ls assume p: "parse_channels spec scan smp = Inr ls"
  note s = select_layers_Inr[OF p[unfolded parse_channels_def]]
  show "map name ls =
        map fst (filter (\<lambda>(k, l). detect_denoising_channels l \<noteq> None) (file_layers spec))"
    using s by simp
  show "\<forall>l \<in> set ls. 1 \<le> samples l \<and> (1 \<le> smp \<longrightarrow> samples l = smp) \<and>
         (smp < 1 \<longrightarrow>
            get_string_attribute spec (''cycles.'' @ name l @ ''.samples'') [] \<noteq> [] \<and>
            scan (get_string_attribute spec (''cycles.'' @ name l @ ''.samples'') []) =
              ScanInt (samples l))"
  proof
    fix l assume "l \<in> set ls"
    with s obtain k l0 l1 where r: "resolve_samples spec scan smp k l1 = Inr l" by auto
    from resolve_samples_Inr[OF r] show "1 \<le> samples l \<and> (1 \<le> smp \<longrightarrow> samples l = smp) \<and>
         (smp < 1 \<longrightarrow>
            get_string_attribute spec (''cycles.'' @ name l @ ''.samples'') [] \<noteq> [] \<and>
            scan (get_string_attribute spec (''cycles.'' @ name l @ ''.samples'') []) =
              ScanInt (samples l))"
      by simp
  qed
next
  fix k l
  assume a: "(k, l) \<in> set (file_layers spec) \<and> detect_denoising_channels l \<noteq> None \<and> smp < 1 \<and>
      (get_string_attribute spec (''cycles.'' @ k @ ''.samples'') [] = [] \<or>
       (\<forall>v. scan (get_string_attribute spec (''cycles.'' @ k @ ''.samples'') []) = ScanInt v \<longrightarrow> v < 1))"
  then obtain l1 where d: "detect_denoising_channels l = Some l1" by auto
  from a resolve_samples_fails[of smp spec k scan l1] obtain e where
    "resolve_samples spec scan smp k l1 = Inl e" by blast
  from select_layers_fails[OF _ d this, of "file_layers spec" "[]"] a
  show "\<exists>err. parse_channels spec scan smp = Inl err" by (simp add: parse_channels_def)
next
  fix err assume "parse_channels spec scan smp = Inl err"
  from select_layers_Inl[OF this[unfolded parse_channels_def]] obtain k l0 l1 where
    m: "(k, l0) \<in> set (file_layers spec)" "detect_denoising_channels l0 = Some l1"
    and r: "resolve_samples spec scan smp k l1 = Inl err" by blast
  from resolve_samples_Inl[OF r] m
  show "\<exists>k l. (k, l) \<in> set (file_layers spec) \<and> detect_denoising_channels l \<noteq> None \<and> smp < 1 \<and>
         (err = ''Failed to parse samples metadata: '' @
                  get_string_attribute spec (''cycles.'' @ k @ ''.samples'') [] \<or>
          err = ''No sample number specified in the file for layer '' @ k @
                  '' or on the command line'')"
    by (intro exI[of _ k] exI[of _ l0]) simp
qed

text \<open>
  C10. For every layer that \<open>parse_channels\<close> retains, \<open>input_to_image_channel\<close> has
  15 entries and \<open>output_to_image_channel\<close> has 3, and every entry is at least 0 and
  less than the number of channel names of the file; when the channel count of the
  file is the number of its channel names, every entry is less than \<open>num_channels\<close>
  and \<open>i * num_channels + entry\<close> stays within the floats of pixel \<open>i\<close>.
\<close>

theorem parse_channels_tables_in_range:
  assumes "parse_channels spec scan smp = Inr ls" "l \<in> set ls"
  shows "length (input_to_image_channel l) = 15 \<and> length (output_to_image_channel l) = 3 \<and>
     (\<forall>c \<in> set (input_to_image_channel l) \<union> set (output_to_image_channel l).
        0 \<le> c \<and> c < int (length (channelnames spec)) \<and>
        (nchannels spec = int (length (channelnames spec)) \<longrightarrow>
           c < nchannels spec \<and>
           (\<forall>i. i * nchannels spec \<le> i * nchannels spec + c \<and>
                i * nchannels spec + c < (i + 1) * nchannels spec)))"
proof -
  from select_layers_Inr[OF assms(1)[unfolded parse_channels_def]] assms(2)
  obtain k l0 l1 where m: "(k, l0) \<in> set (file_layers spec)"
    and d: "detect_denoising_channels l0 = Some l1"
    and r: "resolve_samples spec scan smp k l1 = Inr l" by auto
  from file_layers_indices[of spec] m have
    i: "length (channels l0) = length (layer_to_image_channel l0)"
      "\<forall>c \<in> set (layer_to_image_channel l0). 0 \<le> c \<and> c < int (length (channelnames spec))"
    unfolding layer_indices_below_def by auto
  from detect_denoising_channels_tables[OF d i(1)] resolve_samples_Inr[OF r] have
    t: "length (input_to_image_channel l) = 15" "length (output_to_image_channel l) = 3"
      "set (input_to_image_channel l) \<subseteq> set (layer_to_image_channel l0)"
      "set (output_to_image_channel l) \<subseteq> set (layer_to_image_channel l0)"
    by simp_all
  have "0 \<le> c \<and> c < int (length (channelnames spec)) \<and>
        (nchannels spec = int (length (channelnames spec)) \<longrightarrow>
           c < nchannels spec \<and>
           (\<forall>i. i * nchannels spec \<le> i * nchannels spec + c \<and>
                i * nchannels spec + c < (i + 1) * nchannels spec))"
    if "c \<in> set (input_to_image_channel l) \<union> set (output_to_image_channel l)" for c
  proof -
    have c: "0 \<le> c" "c < int (length (channelnames spec))" using that t(3,4) i(2) by auto
    then show ?thesis by (simp add: distrib_right)
  qed
  then show ?thesis using t(1,2) by blast
qed

lemma find_string_nth: "find_string cs nm = Some j \<Longrightarrow> j < length cs \<and> cs ! j = nm"
  by (induction cs arbitrary: j) (auto split: if_splits)

lemma layers_distinct_update:
  assumes "layers_distinct i m"
  shows "layers_distinct (i + 1)
     (std_map_update k (\<lambda>l. l\<lparr>channels := channels l @ [c],
          layer_to_image_channel := layer_to_image_channel l @ [i]\<rparr>) empty_layer m)"
  unfolding layers_distinct_def
proof (clarify)
  fix k' l'
  assume "(k', l') \<in> set (std_map_update k (\<lambda>l. l\<lparr>channels := channels l @ [c],
          layer_to_image_channel := layer_to_image_channel l @ [i]\<rparr>) empty_layer m)"
  from std_map_update_values[OF this]
  consider "(k', l') \<in> set m"
    | "l' = empty_layer\<lparr>channels := channels empty_layer @ [c],
          layer_to_image_channel := layer_to_image_channel empty_layer @ [i]\<rparr>"
    | v where "(k, v) \<in> set m" "l' = v\<lparr>channels := channels v @ [c],
          layer_to_image_channel := layer_to_image_channel v @ [i]\<rparr>"
    by blast
  then show "distinct (layer_to_image_channel l') \<and>
        (\<forall>c \<in> set (layer_to_image_channel l'). c < i + 1)"
  proof cases
    case 1
    then show ?thesis using assms unfolding layers_distinct_def by fastforce
  next
    case 2
    then show ?thesis by (simp add: empty_layer_def)
  next
    case 3
    then show ?thesis using assms unfolding layers_distinct_def by fastforce
  qed
qed

lemma collect_layers_distinct:
  "layers_distinct i m \<Longrightarrow> layers_distinct (i + int (length cs)) (collect_layers mv cs i m)"
proof (induction cs arbitrary: i m)
  case Nil
  then show ?case by simp
next
  case (Cons c cs)
  let ?m' = "(case parse_channel_name c mv of
          None \<Rightarrow> m
        | Some (layer, pass, channel) \<Rightarrow>
            std_map_update layer
              (\<lambda>l. l\<lparr>channels := channels l @ [pass @ ''.'' @ channel],
                      layer_to_image_channel := layer_to_image_channel l @ [i]\<rparr>)
              empty_layer m)"
  have w: "layers_distinct (i + 1) m"
    using Cons.prems unfolding layers_distinct_def by fastforce
  have "layers_distinct (i + 1) ?m'"
    using Cons.prems layers_distinct_update w by (auto split: option.splits)
  from Cons.IH[OF this] show ?case by (simp add: algebra_simps)
qed

lemma output_channels_list:
  "output_channels = [(0, ''Combined.R''), (1, ''Combined.G''), (2, ''Combined.B'')]"
  by (simp add: output_channels_def)

text \<open>
  The three output channels of a retained layer are distinct file channels, as the
  write-back of \<open>unmap_neighboring_tiles\<close> needs.
\<close>

lemma parse_channels_output_distinct:
  assumes "parse_channels spec scan smp = Inr ls" "l \<in> set ls"
  shows "distinct (output_to_image_channel l)"
proof -
  from select_layers_Inr[OF assms(1)[unfolded parse_channels_def]] assms(2)
  obtain k l0 l1 where m: "(k, l0) \<in> set (file_layers spec)"
    and d: "detect_denoising_channels l0 = Some l1"
    and r: "resolve_samples spec scan smp k l1 = Inr l" by auto
  have "layers_distinct (0 + int (length (channelnames spec))) (file_layers spec)"
    unfolding file_layers_def by (rule collect_layers_distinct) (simp add: layers_distinct_def)
  with m have dl: "distinct (layer_to_image_channel l0)" unfolding layers_distinct_def by auto
  have len: "length (channels l0) = length (layer_to_image_channel l0)"
    using file_layers_indices[of spec] m unfolding layer_indices_below_def by auto
  let ?l2i = "layer_to_image_channel l0"
  from d obtain o2i where
    o: "map_channels output_channels (channels l0) ?l2i (replicate 3 (- 1)) = Some o2i"
    and l1: "output_to_image_channel l1 = o2i"
    by (auto simp: detect_denoising_channels_def OUTPUT_NUM_CHANNELS_def split: option.splits)
  from o obtain j0 j1 j2 where
    f: "find_string (channels l0) ''Combined.R'' = Some j0"
      "find_string (channels l0) ''Combined.G'' = Some j1"
      "find_string (channels l0) ''Combined.B'' = Some j2"
    and t: "o2i = [?l2i ! j0, ?l2i ! j1, ?l2i ! j2]"
    unfolding output_channels_list
    by (auto simp: numeral_3_eq_3 split: option.splits)
  note n = find_string_nth[OF f(1)] find_string_nth[OF f(2)] find_string_nth[OF f(3)]
  have ne: "j0 \<noteq> j1" "j0 \<noteq> j2" "j1 \<noteq> j2" using n by auto
  have "distinct o2i"
    unfolding t using ne n dl len by (simp add: nth_eq_iff_index_eq)
  then show ?thesis using l1 resolve_samples_Inr[OF r] by simp
qed

lemma ex_spec_parses: "parse_channels ex_spec decimal_scan 0 = Inr [ex_layer]"
  by code_simp

lemma ex_two_layers_names:
  "map_sum id (map name) (parse_channels ex_two_layers decimal_scan 8) = Inr [''A'', ''B'']"
  by code_simp

theorem parse_channels_layer_order_witness:
  "\<exists>ls. parse_channels ex_two_layers decimal_scan 8 = Inr ls \<and> map name ls = [''A'', ''B''] \<and>
     sorted_wrt (<) (map name ls) \<and>
     exec_loop (\<lambda>l t. Some t) (\<lambda>l t. t @ [name (ls ! l)]) (length ls) 0 [] = Some [''A'', ''B'']"
proof -
  from ex_two_layers_names obtain ls where
    p: "parse_channels ex_two_layers decimal_scan 8 = Inr ls" and n: "map name ls = [''A'', ''B'']"
    by (cases "parse_channels ex_two_layers decimal_scan 8") auto
  from parse_channels_layer_order[OF p] n p show ?thesis by auto
qed

text \<open>
  The claim C3 as stated fails: for a file that lists the channels of layer \<open>B\<close>
  before those of layer \<open>A\<close>, the layers come out as \<open>A\<close>, \<open>B\<close>, and the order
  of first occurrence is \<open>B\<close>, \<open>A\<close>.
\<close>

theorem parse_channels_discovery_order_counterexample:
  "map_sum id (map name) (parse_channels ex_two_layers decimal_scan 8) = Inr [''A'', ''B''] \<and>
   discovery_order (multiview_channels ex_two_layers) (channelnames ex_two_layers) [] = [''B'', ''A'']"
  by code_simp

lemma ex_file_layers:
  "file_layers ex_spec_no_samples =
     [(''RenderLayer'', ex_layer\<lparr>name := [], input_to_image_channel := [],
          output_to_image_channel := [], samples := 0\<rparr>)]"
  by code_simp

lemma ex_file_layer_detected:
  "detect_denoising_channels (ex_layer\<lparr>name := [], input_to_image_channel := [],
          output_to_image_channel := [], samples := 0\<rparr>) \<noteq> None"
  by code_simp

theorem parse_channels_samples_witness:
  "parse_channels ex_spec decimal_scan 0 = Inr [ex_layer] \<and>
   decimal_scan (get_string_attribute ex_spec (''cycles.'' @ name ex_layer @ ''.samples'') []) =
     ScanInt (samples ex_layer) \<and>
   samples ex_layer = 16 \<and>
   (\<exists>err. parse_channels ex_spec_no_samples decimal_scan 0 = Inl err)"
proof -
  note t = parse_channels_samples[of ex_spec decimal_scan 0]
  from t[THEN conjunct1, rule_format, OF ex_spec_parses]
  have 1: "decimal_scan (get_string_attribute ex_spec (''cycles.'' @ name ex_layer @ ''.samples'') []) =
     ScanInt (samples ex_layer)" by simp
  have a: "get_string_attribute ex_spec_no_samples ''cycles.RenderLayer.samples'' [] = []"
    by (simp add: get_string_attribute_def find_attribute_def ex_spec_no_samples_def ex_spec_def)
  note u = parse_channels_samples[of ex_spec_no_samples decimal_scan 0,
      THEN conjunct2, THEN conjunct1, rule_format,
      of "''RenderLayer''" "ex_layer\<lparr>name := [], input_to_image_channel := [],
          output_to_image_channel := [], samples := 0\<rparr>"]
  have 2: "\<exists>err. parse_channels ex_spec_no_samples decimal_scan 0 = Inl err"
    by (rule u) (simp add: ex_file_layers ex_file_layer_detected a)
  have 3: "samples ex_layer = 16" by (simp add: ex_layer_def)
  from ex_spec_parses 1 2 3 show ?thesis by simp
qed

theorem parse_channels_tables_in_range_witness:
  "length (input_to_image_channel ex_layer) = 15 \<and> length (output_to_image_channel ex_layer) = 3 \<and>
   output_to_image_channel ex_layer ! 0 < nchannels ex_spec \<and>
   input_to_image_channel ex_layer ! 8 < nchannels ex_spec"
proof -
  have m: "ex_layer \<in> set [ex_layer]" by simp
  note t = parse_channels_tables_in_range[OF ex_spec_parses m]
  have n: "nchannels ex_spec = int (length (channelnames ex_spec))"
    by (simp add: ex_spec_def ex_channelnames_def)
  have c: "output_to_image_channel ex_layer ! 0 \<in>
      set (input_to_image_channel ex_layer) \<union> set (output_to_image_channel ex_layer)"
    "input_to_image_channel ex_layer ! 8 \<in>
      set (input_to_image_channel ex_layer) \<union> set (output_to_image_channel ex_layer)"
    by (simp_all add: ex_layer_def)
  from t[THEN conjunct2, THEN conjunct2, rule_format, OF c(1)] n
  have 1: "output_to_image_channel ex_layer ! 0 < nchannels ex_spec" by simp
  from t[THEN conjunct2, THEN conjunct2, rule_format, OF c(2)] n
  have 2: "input_to_image_channel ex_layer ! 8 < nchannels ex_spec" by simp
  from t 1 2 show ?thesis by simp
qed


subsection \<open>save\_output and its temporary file\<close>

text \<open>
  A call changes nothing but the target path and the temporary path
  \<open><output>.denoise-tmp-<unique><ext>\<close>; on success the image is at the target path
  and the temporary file is gone; when \<open>write_image\<close>, \<open>close\<close> or \<open>rename\<close>
  fails, the temporary file is removed and the target is as before.
\<close>

lemma save_output_tmp_path:
  "\<exists>ok err fs'. save_output env in_spec ls px out error fs = (ok, err, fs') \<and>
     (\<forall>p. p \<noteq> out \<and> p \<noteq> tmp_filepath_of env out \<longrightarrow> fs' p = fs p)"
  unfolding save_output_def tmp_filepath_of_def Let_def
  by (auto split: open_outcome.splits)

lemma save_output_success:
  assumes "create_ok env" "open_result env = OpenOk" "write_ok env" "close_ok env" "rename_ok env"
    and "tmp_filepath_of env out \<noteq> out"
  shows "save_output env in_spec ls px out error fs =
     (True, error, fs(out \<mapsto> ImageFile (add_samples_attributes env ls in_spec) px,
                      tmp_filepath_of env out := None))"
  using assms unfolding save_output_def tmp_filepath_of_def Let_def
  by (auto simp: fun_upd_twist)

lemma save_output_late_failure:
  assumes "create_ok env" "open_result env = OpenOk"
    and "\<not> write_ok env \<or> \<not> close_ok env \<or> \<not> rename_ok env"
    and "tmp_filepath_of env out \<noteq> out"
  shows "\<exists>err. save_output env in_spec ls px out error fs =
     (False, err, fs(tmp_filepath_of env out := None))"
  using assms unfolding save_output_def tmp_filepath_of_def Let_def
  by auto

text \<open>
  C9. The claim has the temporary file removed on every failure after it may have been
  created, the failure of \<open>open\<close> included. The code returns at once when \<open>open\<close>
  fails: when \<open>open\<close> has created the file before failing, the call returns
  \<open>false\<close> and the temporary file is still there.
\<close>

theorem save_output_open_failure_leaves_temp:
  "tmp_filepath_of ex_env_open_fails ''out.exr'' = ''out.exr.denoise-tmp-1a2b.exr'' \<and>
   save_output ex_env_open_fails ex_spec [ex_layer] [0] ''out.exr'' [] ex_fs =
     (False, ''Failed to open file out.exr.denoise-tmp-1a2b.exr for writing: disk full'',
      ex_fs(''out.exr.denoise-tmp-1a2b.exr'' \<mapsto> PartialFile)) \<and>
   snd (snd (save_output ex_env_open_fails ex_spec [ex_layer] [0] ''out.exr'' [] ex_fs))
     ''out.exr.denoise-tmp-1a2b.exr'' = Some PartialFile"
  by (simp add: save_output_def tmp_filepath_of_def ex_env_open_fails_def Let_def)


end
